theory Spec2Isabelle
  imports Main
begin

section \<open>Python values and exceptions\<close>

text \<open>
  The exceptions that the modelled code of \<^verbatim>\<open>stalker/models/task.py\<close> raises or lets
  through. A function that can raise returns \<open>error + 'a\<close>, with \<open>Inl\<close> for the exception.
\<close>

datatype error = TypeError | ValueError | OverflowError | CircularDependencyError

text \<open>
  An argument of a setter is either an instance of the class the setter expects, or
  \<^verbatim>\<open>None\<close>, or an object of some other class.
\<close>

datatype 'a pyobj = Instance 'a | PyNone | Foreign

text \<open>
  The values written to \<^verbatim>\<open>Task.priority\<close> that the model covers: integers (Python
  integers are unbounded), strings, \<^verbatim>\<open>None\<close> and the float infinity
  \<^verbatim>\<open>float('inf')\<close>, the value on which the builtin \<^verbatim>\<open>int()\<close> raises
  \<^verbatim>\<open>OverflowError\<close>.
\<close>

datatype pyval = IntV int | StrV string | NoneV | FloatInfV

subsection \<open>The builtin \<^verbatim>\<open>int()\<close>\<close>

definition is_space :: "char \<Rightarrow> bool" where
  "is_space c = (c \<in> set [CHR '' '', CHR 0x09, CHR 0x0A, CHR 0x0B, CHR 0x0C, CHR 0x0D])"

definition strip :: "string \<Rightarrow> string" where
  "strip s = rev (dropWhile is_space (rev (dropWhile is_space s)))"

definition is_digit :: "char \<Rightarrow> bool" where
  "is_digit c = (48 \<le> (of_char c :: nat) \<and> (of_char c :: nat) \<le> 57)"

definition digits_value :: "string \<Rightarrow> int" where
  "digits_value ds = foldl (\<lambda>acc c. 10 * acc + (int (of_char c) - 48)) 0 ds"

text \<open>
  \<^verbatim>\<open>int(s)\<close> on a string: surrounding whitespace is dropped, then an optional sign and
  one or more ASCII digits are read in base ten; any other string is a
  \<^verbatim>\<open>ValueError\<close> (\<open>None\<close> here).
\<close>

definition int_of_string :: "string \<Rightarrow> int option" where
  "int_of_string s =
     (let t = strip s;
          neg = (t \<noteq> [] \<and> hd t = CHR ''-'');
          ds = (if t \<noteq> [] \<and> (hd t = CHR ''-'' \<or> hd t = CHR ''+'') then tl t else t)
      in if ds \<noteq> [] \<and> list_all is_digit ds
         then Some (if neg then - digits_value ds else digits_value ds)
         else None)"

fun py_int :: "pyval \<Rightarrow> error + int" where
  "py_int (IntV i) = Inr i"
| "py_int (StrV s) = (case int_of_string s of Some i \<Rightarrow> Inr i | None \<Rightarrow> Inl ValueError)"
| "py_int NoneV = Inl TypeError"
| "py_int FloatInfV = Inl OverflowError"

fun isinstance_int :: "pyval \<Rightarrow> bool" where
  "isinstance_int (IntV i) = True"
| "isinstance_int v = False"

section \<open>Task.priority\<close>

text \<open>
  \<^verbatim>\<open>Task._validate_priority\<close> (task.py, lines 667-684). The configured default
  \<^verbatim>\<open>defaults.TASK_PRIORITY\<close> lives in \<^verbatim>\<open>stalker.conf\<close>, which is not part of the
  sources at hand; it is the parameter \<open>TASK_PRIORITY\<close>.

  The \<^verbatim>\<open>try\<close> block catches \<^verbatim>\<open>ValueError\<close> and \<^verbatim>\<open>TypeError\<close> only and then keeps
  the value as it was; any other exception of \<^verbatim>\<open>int()\<close> leaves the validator.
\<close>

definition try_int :: "pyval \<Rightarrow> error + pyval" where
  "try_int priority =
     (case py_int priority of
        Inr i \<Rightarrow> Inr (IntV i)
      | Inl e \<Rightarrow> if e = ValueError \<or> e = TypeError then Inr priority else Inl e)"

definition clamp_priority :: "int \<Rightarrow> int" where
  "clamp_priority priority =
     (if priority < 0 then 0 else if priority > 1000 then 1000 else priority)"

definition validate_priority :: "int \<Rightarrow> pyval \<Rightarrow> error + int" where
  "validate_priority TASK_PRIORITY priority =
     (case try_int priority of
        Inl e \<Rightarrow> Inl e
      | Inr p \<Rightarrow>
          Inr (clamp_priority
                 (case (if \<not> isinstance_int p then IntV TASK_PRIORITY else p) of
                    IntV i \<Rightarrow> i
                  | _ \<Rightarrow> TASK_PRIORITY)))"

section \<open>Tasks, users and bookings\<close>

text \<open>
  Tasks, users and projects are referred to by identity. Python compares tasks with
  \<^verbatim>\<open>is\<close>, which is equality of identities here. A \<^verbatim>\<open>datetime\<close> is the number of
  microseconds since \<^verbatim>\<open>datetime.min\<close>, a \<^verbatim>\<open>timedelta\<close> a number of microseconds.
\<close>

type_synonym tid = nat
type_synonym uid = nat
type_synonym pid = nat
type_synonym datetime = int
type_synonym timedelta = int

definition datetime_min :: datetime where
  "datetime_min = 0"

definition datetime_max :: datetime where
  "datetime_max = 315537897599999999"

text \<open>
  The attributes of \<^verbatim>\<open>Task\<close> that the validators and properties of task.py read and
  write. The columns \<^verbatim>\<open>_project\<close>, \<^verbatim>\<open>_start\<close>, \<^verbatim>\<open>_end\<close>, \<^verbatim>\<open>_duration\<close> and
  \<^verbatim>\<open>_effort\<close> are the fields \<open>project_attr\<close>, \<open>start_attr\<close>, \<open>end_attr\<close>,
  \<open>duration_attr\<close> and \<open>effort_attr\<close>; \<^verbatim>\<open>_effort\<close> is \<^verbatim>\<open>None\<close> until the first write.
\<close>

record task =
  parent :: "tid option"
  children :: "tid list"
  depends :: "tid list"
  resources :: "uid list"
  project_attr :: "pid option"
  is_milestone :: bool
  priority :: int
  start_attr :: datetime
  end_attr :: datetime
  duration_attr :: timedelta
  effort_attr :: "timedelta option"

text \<open>The object graph: every task identity has its attributes.\<close>

type_synonym store = "tid \<Rightarrow> task"

definition is_container :: "task \<Rightarrow> bool" where
  "is_container self = (length (children self) \<noteq> 0)"

definition is_leaf :: "task \<Rightarrow> bool" where
  "is_leaf self = (\<not> (length (children self) \<noteq> 0))"

text \<open>
  A task as it is before \<^verbatim>\<open>Task.__init__\<close> has assigned anything, and the object graph
  in which every task is such a task.
\<close>

definition new_task :: task where
  "new_task = \<lparr>parent = None, children = [], depends = [], resources = [],
                project_attr = None, is_milestone = False, priority = 500,
                start_attr = 0, end_attr = 0, duration_attr = 0, effort_attr = None\<rparr>"

definition empty_store :: store where
  "empty_store = (\<lambda>t. new_task)"

text \<open>
  The resource count that the effort and duration setters use (lines 542-544 and
  758-760): the number of resources, or one when there is none.
\<close>

definition num_of_resources :: "task \<Rightarrow> int" where
  "num_of_resources self =
     (if length (resources self) = 0 then 1 else int (length (resources self)))"

datatype attr = Children | Depends

fun getattr_tasks :: "store \<Rightarrow> tid \<Rightarrow> attr \<Rightarrow> tid list" where
  "getattr_tasks s t Children = children (s t)"
| "getattr_tasks s t Depends = depends (s t)"

record booking =
  booking_task :: "tid option"
  booking_resource :: "uid option"
  booking_start :: datetime
  booking_end :: datetime

record user =
  user_id :: uid
  bookings :: "booking list"

datatype warning = OverBookedWarning uid booking booking | RuntimeWarning

section \<open>Cycle detection\<close>

text \<open>
  \<^verbatim>\<open>_check_circular_dependency(task, check_for_task, attr_name)\<close> (task.py, lines
  893-906) is a \<^verbatim>\<open>for\<close> loop over \<^verbatim>\<open>getattr(task, attr_name)\<close> that raises at
  \<^verbatim>\<open>check_for_task\<close> and otherwise calls itself on the element. \<open>check_circular_loop\<close>
  is that loop on the rest \<open>ds\<close> of the list; the recursive call is the same loop on the
  element's list. The function keeps no set of visited tasks, so it need not return:
  not returning is the value \<open>None\<close>.
\<close>

partial_function (option) check_circular_loop ::
  "store \<Rightarrow> tid list \<Rightarrow> tid \<Rightarrow> attr \<Rightarrow> (error + unit) option" where
  "check_circular_loop s ds check_for_task attr_name =
     (case ds of
        [] \<Rightarrow> Some (Inr ())
      | dependent_task # rest \<Rightarrow>
          if dependent_task = check_for_task then Some (Inl CircularDependencyError)
          else Option.bind
                 (check_circular_loop s (getattr_tasks s dependent_task attr_name)
                    check_for_task attr_name)
                 (\<lambda>r. case r of
                        Inl e \<Rightarrow> Some (Inl e)
                      | Inr u \<Rightarrow> check_circular_loop s rest check_for_task attr_name))"

declare check_circular_loop.simps [code]

definition check_circular_dependency ::
  "store \<Rightarrow> tid \<Rightarrow> tid \<Rightarrow> attr \<Rightarrow> (error + unit) option" where
  "check_circular_dependency s task check_for_task attr_name =
     check_circular_loop s (getattr_tasks s task attr_name) check_for_task attr_name"

text \<open>
  The relation that the walk follows, as a set of pairs: \<open>(d, t)\<close> when \<open>d\<close> is in the
  list \<^verbatim>\<open>getattr(t, attr_name)\<close>. \<open>c\<close> can be reached from \<open>t\<close> in one or more steps when
  \<open>(c, t)\<close> is in the transitive closure; the relation is well-founded when no walk goes
  on forever, which on the finitely many tasks of an object graph means that it has no
  cycle.
\<close>

definition edges :: "store \<Rightarrow> attr \<Rightarrow> (tid \<times> tid) set" where
  "edges s a = {(d, t). d \<in> set (getattr_tasks s t a)}"

definition reached :: "store \<Rightarrow> attr \<Rightarrow> tid list \<Rightarrow> tid \<Rightarrow> bool" where
  "reached s a ds c = (\<exists>d\<in>set ds. (c, d) \<in> (edges s a)\<^sup>*)"

definition outcome :: "bool \<Rightarrow> error + unit" where
  "outcome b = (if b then Inl CircularDependencyError else Inr ())"

text \<open>Two object graphs: task 0 depends on task 1 and task 1 on task 2; task 0 depends on itself.\<close>

definition chain_store :: store where
  "chain_store = empty_store(0 := new_task\<lparr>depends := [1]\<rparr>, 1 := new_task\<lparr>depends := [2]\<rparr>)"

definition self_loop_store :: store where
  "self_loop_store = empty_store(0 := new_task\<lparr>depends := [0]\<rparr>)"

section \<open>Structural mutations\<close>

text \<open>
  \<^verbatim>\<open>Task._validate_depends\<close> (lines 500-511) runs when an object is appended to
  \<^verbatim>\<open>self.depends\<close>; the object is appended when the validator returns it.
\<close>

definition validate_depends :: "store \<Rightarrow> tid \<Rightarrow> tid pyobj \<Rightarrow> (error + tid) option" where
  "validate_depends s self depends_in =
     (case depends_in of
        Instance d \<Rightarrow>
          Option.bind (check_circular_dependency s d self Depends)
            (\<lambda>r. case r of Inl e \<Rightarrow> Some (Inl e) | Inr u \<Rightarrow> Some (Inr d))
      | PyNone \<Rightarrow> Some (Inl TypeError)
      | Foreign \<Rightarrow> Some (Inl TypeError))"

definition append_depends ::
  "store \<Rightarrow> tid \<Rightarrow> tid pyobj \<Rightarrow> ((error + unit) \<times> store) option" where
  "append_depends s self depends_in =
     map_option
       (\<lambda>r. case r of
              Inl e \<Rightarrow> (Inl e, s)
            | Inr d \<Rightarrow> (Inr (), s(self := (s self)\<lparr>depends := depends (s self) @ [d]\<rparr>)))
       (validate_depends s self depends_in)"

text \<open>\<^verbatim>\<open>Task._validate_parent\<close> (lines 592-607).\<close>

definition validate_parent ::
  "store \<Rightarrow> tid \<Rightarrow> tid pyobj \<Rightarrow> (error + tid option) option" where
  "validate_parent s self parent_in =
     (case parent_in of
        PyNone \<Rightarrow> Some (Inr None)
      | Foreign \<Rightarrow> Some (Inl TypeError)
      | Instance p \<Rightarrow>
          Option.bind (check_circular_dependency s self p Children)
            (\<lambda>r. case r of Inl e \<Rightarrow> Some (Inl e) | Inr u \<Rightarrow> Some (Inr (Some p))))"

text \<open>
  \<^verbatim>\<open>Task._validate_children\<close> (lines 686-708) runs on the parent when a child is
  attached: it empties the parent's resources and returns the child.
\<close>

definition validate_children :: "task \<Rightarrow> tid \<Rightarrow> task \<times> tid" where
  "validate_children self child = (self\<lparr>resources := []\<rparr>, child)"

text \<open>
  The relationships \<^verbatim>\<open>parent\<close> and \<^verbatim>\<open>children\<close> are declared with
  \<^verbatim>\<open>back_populates\<close> (lines 325-337): once the validator has accepted a new parent, the
  task leaves the children of its old parent and is appended to the children of the new
  one, which runs \<^verbatim>\<open>_validate_children\<close> there. A validator that raises leaves the
  object graph as it was.
\<close>

definition detach_child :: "store \<Rightarrow> tid \<Rightarrow> store" where
  "detach_child s self =
     (case parent (s self) of
        None \<Rightarrow> s
      | Some old \<Rightarrow> s(old := (s old)\<lparr>children := remove1 self (children (s old))\<rparr>))"

definition attach_child :: "store \<Rightarrow> tid \<Rightarrow> tid \<Rightarrow> store" where
  "attach_child s p child =
     (case validate_children (s p) child of
        (p', c) \<Rightarrow> s(p := p'\<lparr>children := children p' @ [c]\<rparr>))"

definition set_parent ::
  "store \<Rightarrow> tid \<Rightarrow> tid pyobj \<Rightarrow> ((error + unit) \<times> store) option" where
  "set_parent s self parent_in =
     map_option
       (\<lambda>r. case r of
              Inl e \<Rightarrow> (Inl e, s)
            | Inr new \<Rightarrow>
                (Inr (),
                 if new = parent (s self) then s
                 else let s1 = detach_child s self;
                          s2 = s1(self := (s1 self)\<lparr>parent := new\<rparr>)
                      in case new of None \<Rightarrow> s2 | Some p \<Rightarrow> attach_child s2 p self))
       (validate_parent s self parent_in)"

section \<open>Milestones and resources\<close>

text \<open>
  \<^verbatim>\<open>Task._validate_is_milestone\<close> (lines 583-590) runs on every write to
  \<^verbatim>\<open>is_milestone\<close>; the argument is the truth value of the written object.
\<close>

definition validate_is_milestone :: "task \<Rightarrow> bool \<Rightarrow> task \<times> bool" where
  "validate_is_milestone self is_milestone_in =
     ((if is_milestone_in then self\<lparr>resources := []\<rparr> else self), is_milestone_in)"

definition set_is_milestone :: "task \<Rightarrow> bool \<Rightarrow> task" where
  "set_is_milestone self is_milestone_in =
     (case validate_is_milestone self is_milestone_in of
        (self', b) \<Rightarrow> self'\<lparr>is_milestone := b\<rparr>)"

text \<open>
  The part of \<^verbatim>\<open>Task.__init__\<close> (lines 445-459) that deals with the milestone flag
  and the resources, on a task whose resources are still empty: the flag is written
  first, a milestone then drops the \<^verbatim>\<open>resources\<close> argument, and \<^verbatim>\<open>None\<close> becomes
  the empty list.
\<close>

definition init_milestone_resources :: "task \<Rightarrow> bool \<Rightarrow> uid list option \<Rightarrow> task" where
  "init_milestone_resources self is_milestone_in resources_in =
     (let self1 = set_is_milestone self is_milestone_in;
          resources1 = (if is_milestone self1 then None else resources_in);
          resources2 = (case resources1 of None \<Rightarrow> [] | Some rs \<Rightarrow> rs)
      in self1\<lparr>resources := resources2\<rparr>)"

text \<open>
  \<^verbatim>\<open>Task._validate_resources\<close> (lines 710-724) runs when an object is appended to
  \<^verbatim>\<open>self.resources\<close>. It checks the type and nothing else; no validator runs when a
  resource is removed.
\<close>

definition validate_resources :: "task \<Rightarrow> uid pyobj \<Rightarrow> error + uid" where
  "validate_resources self resource =
     (case resource of
        Instance u \<Rightarrow> Inr u
      | PyNone \<Rightarrow> Inl TypeError
      | Foreign \<Rightarrow> Inl TypeError)"

definition append_resource :: "task \<Rightarrow> uid pyobj \<Rightarrow> (error + unit) \<times> task" where
  "append_resource self resource =
     (case validate_resources self resource of
        Inl e \<Rightarrow> (Inl e, self)
      | Inr u \<Rightarrow> (Inr (), self\<lparr>resources := resources self @ [u]\<rparr>))"

definition remove_resource :: "task \<Rightarrow> uid \<Rightarrow> task" where
  "remove_resource self u = self\<lparr>resources := remove1 u (resources self)\<rparr>"

section \<open>The project of a task\<close>

text \<open>
  \<^verbatim>\<open>Task._validates_project\<close> (lines 609-665). The result is the value stored in
  \<^verbatim>\<open>_project\<close>, which is \<^verbatim>\<open>None\<close> only when it is taken from a parent that has
  none, together with the warnings emitted on the way.
\<close>

definition validates_project ::
  "store \<Rightarrow> tid \<Rightarrow> pid pyobj \<Rightarrow> error + (warning list \<times> pid option)" where
  "validates_project s self project_in =
     (case (case project_in of
              PyNone \<Rightarrow>
                (case parent (s self) of
                   Some p \<Rightarrow>
                     Inr (case project_attr (s p) of Some q \<Rightarrow> Instance q | None \<Rightarrow> PyNone)
                 | None \<Rightarrow> Inl TypeError)
            | _ \<Rightarrow> Inr project_in) of
        Inl e \<Rightarrow> Inl e
      | Inr project \<Rightarrow>
          (case project of
             Instance q \<Rightarrow>
               (case parent (s self) of
                  Some p \<Rightarrow>
                    if project_attr (s p) \<noteq> Some q
                    then Inr ([RuntimeWarning], project_attr (s p))
                    else Inr ([], Some q)
                | None \<Rightarrow> Inr ([], Some q))
           | PyNone \<Rightarrow> Inl TypeError
           | Foreign \<Rightarrow> Inl TypeError))"

text \<open>
  The two assignments \<^verbatim>\<open>self.parent = parent\<close> and \<^verbatim>\<open>self._project = project\<close> of
  \<^verbatim>\<open>Task.__init__\<close> (lines 439-440), in this order.
\<close>

definition init_parent_project ::
  "store \<Rightarrow> tid \<Rightarrow> tid pyobj \<Rightarrow> pid pyobj \<Rightarrow> ((error + warning list) \<times> store) option" where
  "init_parent_project s self parent_in project_in =
     Option.bind (set_parent s self parent_in)
       (\<lambda>(r, s1). case r of
            Inl e \<Rightarrow> Some (Inl e, s1)
          | Inr u \<Rightarrow>
              (case validates_project s1 self project_in of
                 Inl e \<Rightarrow> Some (Inl e, s1)
               | Inr (ws, p) \<Rightarrow> Some (Inr ws, s1(self := (s1 self)\<lparr>project_attr := p\<rparr>))))"

text \<open>An object graph in which task 1 belongs to project 7 and task 0 is not constructed yet.\<close>

definition project_store :: store where
  "project_store = empty_store(1 := new_task\<lparr>project_attr := Some 7\<rparr>)"

text \<open>
  The same object graph after a construction of task 0 with parent 1 that was given an
  object of another class as project: the parent was assigned, then the project was
  refused, so task 0 is a child of task 1 and has no project.
\<close>

definition half_built_store :: store where
  "half_built_store = project_store
     (0 := new_task\<lparr>parent := Some 1\<rparr>,
      1 := new_task\<lparr>project_attr := Some 7, children := [0]\<rparr>)"

section \<open>Bookings\<close>

text \<open>
  The loop of \<^verbatim>\<open>Booking._validate_resource\<close> (lines 116-131) over the bookings that the
  resource already has: \<open>b\<close> is the existing booking, \<open>self\<close> the new one.
\<close>

definition overbooked :: "booking \<Rightarrow> booking \<Rightarrow> bool" where
  "overbooked b self =
     (booking_start b = booking_start self \<or>
      booking_end b = booking_end self \<or>
      (booking_end self > booking_start b \<and> booking_end self < booking_end b) \<or>
      (booking_start self > booking_start b \<and> booking_start self < booking_end b))"

fun check_overbooking :: "user \<Rightarrow> booking \<Rightarrow> booking list \<Rightarrow> warning list" where
  "check_overbooking resource self [] = []"
| "check_overbooking resource self (b # bs) =
     (if overbooked b self
      then OverBookedWarning (user_id resource) self b # check_overbooking resource self bs
      else check_overbooking resource self bs)"

text \<open>\<^verbatim>\<open>Booking._validate_task\<close> (lines 89-99).\<close>

definition validate_task :: "tid pyobj \<Rightarrow> error + tid" where
  "validate_task task_in =
     (case task_in of
        Instance t \<Rightarrow> Inr t
      | PyNone \<Rightarrow> Inl TypeError
      | Foreign \<Rightarrow> Inl TypeError)"

text \<open>\<^verbatim>\<open>Booking._validate_resource\<close> (lines 101-132).\<close>

definition validate_resource :: "booking \<Rightarrow> user pyobj \<Rightarrow> error + (warning list \<times> user)" where
  "validate_resource self resource_in =
     (case resource_in of
        PyNone \<Rightarrow> Inl TypeError
      | Foreign \<Rightarrow> Inl TypeError
      | Instance resource \<Rightarrow> Inr (check_overbooking resource self (bookings resource), resource))"

text \<open>
  \<^verbatim>\<open>Booking.__init__\<close> (lines 73-87), with \<open>start_in\<close> and \<open>end_in\<close> the dates that
  \<^verbatim>\<open>ScheduleMixin.__init__\<close> has stored. The task is assigned first, then the
  resource; the relationship \<^verbatim>\<open>resource\<close> is declared with \<^verbatim>\<open>back_populates\<close>, so an
  accepted booking joins the bookings of the resource.
\<close>

definition Booking_init ::
  "tid pyobj \<Rightarrow> user pyobj \<Rightarrow> datetime \<Rightarrow> datetime \<Rightarrow> error + (warning list \<times> booking \<times> user)" where
  "Booking_init task_in resource_in start_in end_in =
     (case validate_task task_in of
        Inl e \<Rightarrow> Inl e
      | Inr t \<Rightarrow>
          (let self = \<lparr>booking_task = Some t, booking_resource = None,
                       booking_start = start_in, booking_end = end_in\<rparr>
           in case validate_resource self resource_in of
                Inl e \<Rightarrow> Inl e
              | Inr (ws, resource) \<Rightarrow>
                  (let self' = self\<lparr>booking_resource := Some (user_id resource)\<rparr>
                   in Inr (ws, self', resource\<lparr>bookings := bookings resource @ [self']\<rparr>))))"

text \<open>
  The overlap rule in the words of the specification, for an existing booking
  \<open>[s1, e1)\<close> and a new booking \<open>[s2, e2)\<close>.
\<close>

definition overlap_as_specified :: "datetime \<Rightarrow> datetime \<Rightarrow> datetime \<Rightarrow> datetime \<Rightarrow> bool" where
  "overlap_as_specified s1 e1 s2 e2 =
     (s1 = s2 \<or> e1 = e2 \<or> (s2 < e1 \<and> e1 < e2) \<or> (s2 < s1 \<and> s1 < e2))"

section \<open>Effort and duration\<close>

text \<open>
  \<^verbatim>\<open>ScheduleMixin._validate_dates(start, end, duration)\<close> is called by the setters of
  task.py and is not part of the sources at hand. It stores \<^verbatim>\<open>_start\<close>, \<^verbatim>\<open>_end\<close> and
  \<^verbatim>\<open>_duration\<close>; it is the parameter \<open>vd\<close> of the setters, a function from the three
  arguments to the three values it stores.
\<close>

type_synonym dates = "datetime \<times> datetime \<times> timedelta"

type_synonym validate_dates =
  "datetime pyobj \<Rightarrow> datetime pyobj \<Rightarrow> timedelta pyobj \<Rightarrow> dates"

definition store_dates :: "task \<Rightarrow> dates \<Rightarrow> task" where
  "store_dates self r =
     (case r of (st, en, d) \<Rightarrow> self\<lparr>start_attr := st, end_attr := en, duration_attr := d\<rparr>)"

text \<open>\<^verbatim>\<open>Task._validate_effort\<close> (lines 513-529).\<close>

definition validate_effort :: "task \<Rightarrow> timedelta pyobj \<Rightarrow> timedelta" where
  "validate_effort self effort =
     (case effort of
        Instance e \<Rightarrow> e
      | PyNone \<Rightarrow> duration_attr self * num_of_resources self
      | Foreign \<Rightarrow> duration_attr self * num_of_resources self)"

text \<open>
  The call of \<^verbatim>\<open>_validate_dates\<close> in \<^verbatim>\<open>Task._duration_setter\<close> (lines 746-754): with
  a timedelta the end is passed as \<^verbatim>\<open>None\<close>, to have it recalculated.
\<close>

definition duration_dates :: "validate_dates \<Rightarrow> task \<Rightarrow> timedelta pyobj \<Rightarrow> dates" where
  "duration_dates vd self duration =
     (case duration of
        Instance d \<Rightarrow> vd (Instance (start_attr self)) PyNone duration
      | Foreign \<Rightarrow> vd (Instance (start_attr self)) (Instance (end_attr self)) duration
      | PyNone \<Rightarrow> vd (Instance (start_attr self)) (Instance (end_attr self)) duration)"

text \<open>
  \<^verbatim>\<open>Task._effort_setter\<close> (lines 536-546) and \<^verbatim>\<open>Task._duration_setter\<close> (lines
  741-766) call each other: the effort setter always writes the duration, the duration
  setter writes the effort unless it has the new value already. The first argument bounds
  the depth of these calls, and \<open>None\<close> says that the bound was reached. The setters are
  modelled on a leaf task, where \<^verbatim>\<open>self.start\<close> and \<^verbatim>\<open>self.end\<close> are the stored
  \<^verbatim>\<open>_start\<close> and \<^verbatim>\<open>_end\<close>. A timedelta divided by an integer is the floor of the
  quotient in microseconds.
\<close>

fun effort_setter :: "nat \<Rightarrow> validate_dates \<Rightarrow> task \<Rightarrow> timedelta pyobj \<Rightarrow> task option"
and duration_setter :: "nat \<Rightarrow> validate_dates \<Rightarrow> task \<Rightarrow> timedelta pyobj \<Rightarrow> task option" where
  "effort_setter 0 vd self effort_in = None"
| "effort_setter (Suc n) vd self effort_in =
     (let self1 = self\<lparr>effort_attr := Some (validate_effort self effort_in)\<rparr>
      in duration_setter n vd self1
           (Instance (validate_effort self effort_in div num_of_resources self1)))"
| "duration_setter 0 vd self duration = None"
| "duration_setter (Suc n) vd self duration =
     (let self1 = store_dates self (duration_dates vd self duration);
          new_effort_value = duration_attr self1 * num_of_resources self1
      in if effort_attr self1 \<noteq> Some new_effort_value
         then effort_setter n vd self1 (Instance new_effort_value)
         else Some self1)"

text \<open>
  What the setters need of \<^verbatim>\<open>_validate_dates\<close> to come to rest: validating the stored
  start with the stored duration again stores that duration again.
\<close>

definition dates_stable :: "validate_dates \<Rightarrow> bool" where
  "dates_stable vd =
     (\<forall>st en d. case vd st en d of
         (st', en', d') \<Rightarrow>
           (case vd (Instance st') PyNone (Instance d') of (st'', en'', d'') \<Rightarrow> d'' = d'))"

text \<open>
  An instance of the parameter, to run the setters on concrete values: with an end the
  duration is the end minus the start, with a duration and no end the end is the start plus
  the duration.
\<close>

definition simple_dates :: validate_dates where
  "simple_dates st en d =
     (case st of
        Instance s \<Rightarrow>
          (case en of
             Instance e \<Rightarrow> (s, e, e - s)
           | _ \<Rightarrow> (case d of Instance x \<Rightarrow> (s, s + x, x) | _ \<Rightarrow> (s, s, 0)))
      | _ \<Rightarrow> (0, 0, 0))"

text \<open>A leaf task with two resources.\<close>

definition two_resources :: task where
  "two_resources = new_task\<lparr>resources := [1, 2]\<rparr>"

section \<open>Start and end of a task\<close>

text \<open>
  \<^verbatim>\<open>Task._start_getter\<close> (lines 784-794). On a container the getter sets \<^verbatim>\<open>_start\<close> to
  \<^verbatim>\<open>datetime.max\<close> and lowers it in a loop over the children; \<^verbatim>\<open>child.start\<close> is the
  getter of the child, read once for the comparison and once more for the assignment, and
  each read of a container writes its \<^verbatim>\<open>_start\<close>. \<open>start_loop\<close> is the loop on the rest of
  the children. The first argument bounds the depth of the nested reads, and \<open>None\<close> says
  that the bound was reached.
\<close>

fun start_getter :: "nat \<Rightarrow> store \<Rightarrow> tid \<Rightarrow> (datetime \<times> store) option"
and start_loop :: "nat \<Rightarrow> store \<Rightarrow> tid \<Rightarrow> tid list \<Rightarrow> store option" where
  "start_getter 0 s self = None"
| "start_getter (Suc n) s self =
     (if is_container (s self)
      then (case start_loop n (s(self := (s self)\<lparr>start_attr := datetime_max\<rparr>)) self
                   (children (s self)) of
              None \<Rightarrow> None
            | Some s' \<Rightarrow> Some (start_attr (s' self), s'))
      else Some (start_attr (s self), s))"
| "start_loop n s self [] = Some s"
| "start_loop n s self (child # rest) =
     (case start_getter n s child of
        None \<Rightarrow> None
      | Some (v, s1) \<Rightarrow>
          if v < start_attr (s1 self)
          then (case start_getter n s1 child of
                  None \<Rightarrow> None
                | Some (v2, s2) \<Rightarrow>
                    start_loop n (s2(self := (s2 self)\<lparr>start_attr := v2\<rparr>)) self rest)
          else start_loop n s1 self rest)"

text \<open>\<^verbatim>\<open>Task._end_getter\<close> (lines 818-828), with \<^verbatim>\<open>datetime.min\<close> raised in the loop.\<close>

fun end_getter :: "nat \<Rightarrow> store \<Rightarrow> tid \<Rightarrow> (datetime \<times> store) option"
and end_loop :: "nat \<Rightarrow> store \<Rightarrow> tid \<Rightarrow> tid list \<Rightarrow> store option" where
  "end_getter 0 s self = None"
| "end_getter (Suc n) s self =
     (if is_container (s self)
      then (case end_loop n (s(self := (s self)\<lparr>end_attr := datetime_min\<rparr>)) self
                   (children (s self)) of
              None \<Rightarrow> None
            | Some s' \<Rightarrow> Some (end_attr (s' self), s'))
      else Some (end_attr (s self), s))"
| "end_loop n s self [] = Some s"
| "end_loop n s self (child # rest) =
     (case end_getter n s child of
        None \<Rightarrow> None
      | Some (v, s1) \<Rightarrow>
          if v > end_attr (s1 self)
          then (case end_getter n s1 child of
                  None \<Rightarrow> None
                | Some (v2, s2) \<Rightarrow>
                    end_loop n (s2(self := (s2 self)\<lparr>end_attr := v2\<rparr>)) self rest)
          else end_loop n s1 self rest)"

text \<open>
  \<^verbatim>\<open>Task._start_setter\<close> (lines 796-801) and \<^verbatim>\<open>Task._end_setter\<close> (lines 830-835): a
  write reaches \<^verbatim>\<open>_validate_dates\<close> on a leaf task only, where \<^verbatim>\<open>self.start\<close>,
  \<^verbatim>\<open>self.end\<close> and \<^verbatim>\<open>self.duration\<close> are the stored values.
\<close>

definition start_setter :: "validate_dates \<Rightarrow> task \<Rightarrow> datetime pyobj \<Rightarrow> task" where
  "start_setter vd self start_in =
     (if is_leaf self
      then store_dates self (vd start_in (Instance (end_attr self)) (Instance (duration_attr self)))
      else self)"

definition end_setter :: "validate_dates \<Rightarrow> task \<Rightarrow> datetime pyobj \<Rightarrow> task" where
  "end_setter vd self end_in =
     (if is_leaf self
      then store_dates self (vd (Instance (start_attr self)) end_in (Instance (duration_attr self)))
      else self)"

text \<open>
  A read changes at most the stored \<^verbatim>\<open>_start\<close> of containers: \<open>start_cached s s'\<close> says
  that \<open>s'\<close> is \<open>s\<close> up to such changes. \<open>start_reads s t n v\<close> says that a read of the
  start of \<open>t\<close> with a depth bound of \<open>n\<close> or more returns \<open>v\<close>, in \<open>s\<close> and in every
  object graph that is \<open>s\<close> up to cached starts, and changes nothing outside the
  descendants of \<open>t\<close>.
\<close>

definition start_cached :: "store \<Rightarrow> store \<Rightarrow> bool" where
  "start_cached s s' =
     (\<forall>u. (\<exists>x. s' u = (s u)\<lparr>start_attr := x\<rparr>) \<and> (children (s u) = [] \<longrightarrow> s' u = s u))"

definition start_reads :: "store \<Rightarrow> tid \<Rightarrow> nat \<Rightarrow> datetime \<Rightarrow> bool" where
  "start_reads s t n v =
     (\<forall>s2 m. start_cached s s2 \<and> n \<le> m \<longrightarrow>
        (\<exists>s2'. start_getter m s2 t = Some (v, s2') \<and> start_cached s2 s2' \<and>
               (\<forall>u. (u, t) \<notin> (edges s Children)\<^sup>* \<longrightarrow> s2' u = s2 u)))"

definition end_cached :: "store \<Rightarrow> store \<Rightarrow> bool" where
  "end_cached s s' =
     (\<forall>u. (\<exists>x. s' u = (s u)\<lparr>end_attr := x\<rparr>) \<and> (children (s u) = [] \<longrightarrow> s' u = s u))"

definition end_reads :: "store \<Rightarrow> tid \<Rightarrow> nat \<Rightarrow> datetime \<Rightarrow> bool" where
  "end_reads s t n v =
     (\<forall>s2 m. end_cached s s2 \<and> n \<le> m \<longrightarrow>
        (\<exists>s2'. end_getter m s2 t = Some (v, s2') \<and> end_cached s2 s2' \<and>
               (\<forall>u. (u, t) \<notin> (edges s Children)\<^sup>* \<longrightarrow> s2' u = s2 u)))"

text \<open>
  Two object graphs. In the first, task 0 has the children 1 and 2, task 1 has the child 3,
  and the leaves 2 and 3 run over \<open>[50, 60)\<close> and \<open>[20, 90)\<close>. In the second, task 0 has
  the child 1.
\<close>

definition tree_store :: store where
  "tree_store = empty_store
     (0 := new_task\<lparr>children := [1, 2]\<rparr>,
      1 := new_task\<lparr>children := [3], parent := Some 0\<rparr>,
      2 := new_task\<lparr>parent := Some 0, start_attr := 50, end_attr := 60\<rparr>,
      3 := new_task\<lparr>parent := Some 1, start_attr := 20, end_attr := 90\<rparr>)"

definition container_store :: store where
  "container_store = empty_store(1 := new_task\<lparr>parent := Some 0\<rparr>, 0 := new_task\<lparr>children := [1]\<rparr>)"

text \<open>
  Two more: task 0 as its own parent and child, and a leaf task 0 with the resource 5.
\<close>

definition self_parent_store :: store where
  "self_parent_store = empty_store(0 := new_task\<lparr>parent := Some 0, children := [0]\<rparr>)"

definition resourced_leaf_store :: store where
  "resourced_leaf_store = empty_store(0 := new_task\<lparr>resources := [5]\<rparr>)"

section \<open>Properties of Task.priority\<close>

lemma clamp_priority_range: "0 \<le> clamp_priority i \<and> clamp_priority i \<le> 1000"
  by (simp add: clamp_priority_def)

lemma clamp_priority_id: "0 \<le> i \<Longrightarrow> i \<le> 1000 \<Longrightarrow> clamp_priority i = i"
  by (simp add: clamp_priority_def)

lemma validate_priority_converted:
  "py_int v = Inr i \<Longrightarrow> validate_priority d v = Inr (clamp_priority i)"
  by (simp add: validate_priority_def try_int_def)

lemma validate_priority_caught:
  assumes "py_int v = Inl e" and "e = ValueError \<or> e = TypeError"
  shows "validate_priority d v = Inr (clamp_priority d)"
proof -
  from assms have "try_int v = Inr v"
    by (auto simp: try_int_def)
  moreover from assms(1) have "\<not> isinstance_int v"
    by (cases v) auto
  ultimately show ?thesis
    by (simp add: validate_priority_def)
qed

lemma validate_priority_escapes:
  assumes "py_int v = Inl e" and "e \<noteq> ValueError" and "e \<noteq> TypeError"
  shows "validate_priority d v = Inl e"
  using assms by (simp add: validate_priority_def try_int_def)

lemma int_of_string_abc: "int_of_string ''abc'' = None"
  by (simp add: int_of_string_def strip_def is_space_def is_digit_def)

text \<open>
  Claim C9, as the code has it. Writing a value to the priority raises only when
  \<^verbatim>\<open>int()\<close> on the value raises something other than \<^verbatim>\<open>ValueError\<close> or
  \<^verbatim>\<open>TypeError\<close>. Otherwise the write succeeds: a value that \<^verbatim>\<open>int()\<close> converts is
  stored converted and clamped into \<open>[0, 1000]\<close> (\<open>-5\<close> gives \<open>0\<close>, \<open>5000\<close> gives
  \<open>1000\<close>), and a value on which \<^verbatim>\<open>int()\<close> raises \<^verbatim>\<open>ValueError\<close> or
  \<^verbatim>\<open>TypeError\<close> (the string \<^verbatim>\<open>"abc"\<close>, \<^verbatim>\<open>None\<close>) is stored as the configured
  default, for a configured default that lies in \<open>[0, 1000]\<close>.
\<close>

theorem priority_clamped_or_default:
  assumes "0 \<le> d" and "d \<le> 1000"
    and "\<forall>e. py_int v = Inl e \<longrightarrow> e = ValueError \<or> e = TypeError"
  shows "(\<exists>p. validate_priority d v = Inr p \<and> 0 \<le> p \<and> p \<le> 1000 \<and>
           (\<forall>i. py_int v = Inr i \<longrightarrow> p = clamp_priority i) \<and>
           ((\<exists>e. py_int v = Inl e) \<longrightarrow> p = d)) \<and>
         validate_priority d (IntV (- 5)) = Inr 0 \<and>
         validate_priority d (IntV 5000) = Inr 1000 \<and>
         validate_priority d (StrV ''abc'') = Inr d"
proof (intro conjI)
  show "\<exists>p. validate_priority d v = Inr p \<and> 0 \<le> p \<and> p \<le> 1000 \<and>
           (\<forall>i. py_int v = Inr i \<longrightarrow> p = clamp_priority i) \<and>
           ((\<exists>e. py_int v = Inl e) \<longrightarrow> p = d)"
  proof (cases "py_int v")
    case (Inl e)
    with assms(3) have "e = ValueError \<or> e = TypeError" by simp
    with Inl have "validate_priority d v = Inr (clamp_priority d)"
      by (rule validate_priority_caught)
    with assms(1,2) Inl show ?thesis
      by (simp add: clamp_priority_id)
  next
    case (Inr i)
    then have "validate_priority d v = Inr (clamp_priority i)"
      by (rule validate_priority_converted)
    with Inr show ?thesis
      by (simp add: clamp_priority_range)
  qed
  show "validate_priority d (IntV (- 5)) = Inr 0"
    by (simp add: validate_priority_converted clamp_priority_def)
  show "validate_priority d (IntV 5000) = Inr 1000"
    by (simp add: validate_priority_converted clamp_priority_def)
  have "py_int (StrV ''abc'') = Inl ValueError"
    by (simp add: int_of_string_abc)
  then have "validate_priority d (StrV ''abc'') = Inr (clamp_priority d)"
    by (rule validate_priority_caught) simp
  with assms(1,2) show "validate_priority d (StrV ''abc'') = Inr d"
    by (simp add: clamp_priority_id)
qed

theorem priority_clamped_or_default_witness:
  "validate_priority 500 (StrV '' 42 '') = Inr 42 \<and>
   validate_priority 500 (StrV ''abc'') = Inr 500 \<and>
   validate_priority 500 (IntV (- 5)) = Inr 0"
proof -
  have conv: "py_int (StrV '' 42 '') = Inr 42"
    by (simp add: int_of_string_def strip_def is_space_def is_digit_def digits_value_def)
  have h: "\<forall>e. py_int (StrV '' 42 '') = Inl e \<longrightarrow> e = ValueError \<or> e = TypeError"
    by (simp only: conv) simp
  have d: "(0::int) \<le> 500" "(500::int) \<le> 1000"
    by simp_all
  from priority_clamped_or_default [of 500 "StrV '' 42 ''", OF d h] conv
  show ?thesis
    by (auto simp: clamp_priority_def)
qed

text \<open>
  The claim as stated, that no written value makes the validator raise, fails at the
  float infinity: \<^verbatim>\<open>int(float('inf'))\<close> raises \<^verbatim>\<open>OverflowError\<close>, which the
  \<^verbatim>\<open>except (ValueError, TypeError)\<close> clause does not catch.
\<close>

theorem priority_raises_counterexample:
  "validate_priority 500 FloatInfV = Inl OverflowError"
  by (simp add: validate_priority_def try_int_def)


section \<open>Properties of milestones and resources\<close>

text \<open>
  Claim C7, as the code has it. \<^verbatim>\<open>_validate_is_milestone\<close> runs on every write, so
  writing a true value to \<^verbatim>\<open>is_milestone\<close> empties the resources of the task at any
  time, at construction (whatever the \<^verbatim>\<open>resources\<close> argument) and on a task that
  already exists; writing a false value leaves the resources as they are.
\<close>

theorem milestone_write_clears_resources:
  "resources (set_is_milestone self True) = [] \<and>
   is_milestone (set_is_milestone self True) \<and>
   resources (set_is_milestone self False) = resources self \<and>
   \<not> is_milestone (set_is_milestone self False) \<and>
   resources (init_milestone_resources self True rs) = []"
  by (simp add: set_is_milestone_def validate_is_milestone_def init_milestone_resources_def)

text \<open>
  The claim as stated, that a later write of true leaves the resources unchanged, fails
  on a task with one resource.
\<close>

theorem milestone_toggle_counterexample:
  "resources (set_is_milestone (new_task\<lparr>resources := [7]\<rparr>) True)
     \<noteq> resources (new_task\<lparr>resources := [7]\<rparr>)"
  by (simp add: set_is_milestone_def validate_is_milestone_def new_task_def)

text \<open>
  Claim C5, as the code has it. Appending a user to the resources of a task, or
  removing one, changes the resources and nothing else: \<^verbatim>\<open>_validate_resources\<close> only
  checks the type, so duration and effort keep their values and nothing is recomputed.
  The equation \<open>effort = duration * max(1, |resources|)\<close> therefore holds afterwards
  exactly when the old effort equals the old duration times the new resource count.
\<close>

theorem resources_mutation_recomputes_nothing:
  "(\<exists>self'. append_resource self (Instance u) = (Inr (), self') \<and>
      resources self' = resources self @ [u] \<and>
      duration_attr self' = duration_attr self \<and>
      effort_attr self' = effort_attr self \<and>
      children self' = children self \<and>
      ((effort_attr self' = Some (duration_attr self' * num_of_resources self')) =
       (effort_attr self = Some (duration_attr self * (int (length (resources self)) + 1))))) \<and>
   duration_attr (remove_resource self u) = duration_attr self \<and>
   effort_attr (remove_resource self u) = effort_attr self"
  by (simp add: append_resource_def validate_resources_def remove_resource_def
      num_of_resources_def add.commute)

text \<open>
  The claim as stated fails on a leaf task with one resource, duration 4 and effort 4:
  the equation holds before a second resource is appended and not after, and the
  duration is still 4.
\<close>

theorem resources_mutation_counterexample:
  "children (new_task\<lparr>resources := [1], duration_attr := 4, effort_attr := Some 4\<rparr>) = [] \<and>
   effort_attr (new_task\<lparr>resources := [1], duration_attr := 4, effort_attr := Some 4\<rparr>)
     = Some (duration_attr (new_task\<lparr>resources := [1], duration_attr := 4, effort_attr := Some 4\<rparr>)
             * num_of_resources (new_task\<lparr>resources := [1], duration_attr := 4, effort_attr := Some 4\<rparr>)) \<and>
   append_resource (new_task\<lparr>resources := [1], duration_attr := 4, effort_attr := Some 4\<rparr>) (Instance 2)
     = (Inr (), new_task\<lparr>resources := [1, 2], duration_attr := 4, effort_attr := Some 4\<rparr>) \<and>
   effort_attr (new_task\<lparr>resources := [1, 2], duration_attr := 4, effort_attr := Some 4\<rparr>)
     \<noteq> Some (duration_attr (new_task\<lparr>resources := [1, 2], duration_attr := 4, effort_attr := Some 4\<rparr>)
             * num_of_resources (new_task\<lparr>resources := [1, 2], duration_attr := 4, effort_attr := Some 4\<rparr>))"
  by (simp add: append_resource_def validate_resources_def num_of_resources_def new_task_def)

section \<open>Properties of bookings\<close>

lemma check_overbooking_filter:
  "check_overbooking r self bs =
     map (OverBookedWarning (user_id r) self) (filter (\<lambda>b. overbooked b self) bs)"
  by (induction bs) simp_all

text \<open>
  Creating a booking \<open>[s2, e2)\<close> of a task for a user always succeeds and records the
  booking with the user. One OverBooked warning is emitted for each booking \<open>[s1, e1)\<close>
  that the user already has with \<open>s1 = s2\<close>, or \<open>e1 = e2\<close>, or \<open>s1 < e2 < e1\<close>, or
  \<open>s1 < s2 < e1\<close>: the loop asks whether an end point of the new booking lies strictly
  inside the existing one, and never whether an end point of the existing booking lies
  inside the new one.
\<close>

lemma booking_recorded_with_warnings:
  "Booking_init (Instance t) (Instance r) s2 e2 =
     Inr (map (OverBookedWarning (user_id r)
                 \<lparr>booking_task = Some t, booking_resource = None,
                  booking_start = s2, booking_end = e2\<rparr>)
            (filter (\<lambda>b. booking_start b = s2 \<or> booking_end b = e2 \<or>
                          (booking_start b < e2 \<and> e2 < booking_end b) \<or>
                          (booking_start b < s2 \<and> s2 < booking_end b))
               (bookings r)),
          \<lparr>booking_task = Some t, booking_resource = Some (user_id r),
           booking_start = s2, booking_end = e2\<rparr>,
          r\<lparr>bookings := bookings r @
             [\<lparr>booking_task = Some t, booking_resource = Some (user_id r),
               booking_start = s2, booking_end = e2\<rparr>]\<rparr>)"
  by (simp add: Booking_init_def validate_task_def validate_resource_def
      check_overbooking_filter overbooked_def Let_def)

text \<open>
  The rule of the specification asks for a warning that the loop does not give only when
  the new booking starts before the existing one and ends after it.
\<close>

lemma overlap_as_specified_missed:
  assumes "overlap_as_specified (booking_start b) (booking_end b)
             (booking_start self) (booking_end self)"
    and "\<not> overbooked b self"
  shows "booking_start self < booking_start b \<and> booking_end b < booking_end self"
  using assms by (auto simp: overlap_as_specified_def overbooked_def)

text \<open>
  Claim C6 at the input where the code departs from it. The user has the booking
  \<open>[3, 5)\<close> and books \<open>[1, 10)\<close>, which contains it. The rule of the specification
  asks for a warning (\<open>s2 < e1 < e2\<close>), as does the documentation of \<^verbatim>\<open>Booking\<close> for
  overlapping bookings; the code records the booking and emits no warning.
\<close>

theorem containing_booking_not_flagged:
  "overlap_as_specified 3 5 1 10 \<and>
   Booking_init (Instance 0)
     (Instance \<lparr>user_id = 1, bookings =
        [\<lparr>booking_task = Some 0, booking_resource = Some 1,
          booking_start = 3, booking_end = 5\<rparr>]\<rparr>) 1 10 =
     Inr ([],
          \<lparr>booking_task = Some 0, booking_resource = Some 1,
           booking_start = 1, booking_end = 10\<rparr>,
          \<lparr>user_id = 1, bookings =
             [\<lparr>booking_task = Some 0, booking_resource = Some 1,
               booking_start = 3, booking_end = 5\<rparr>,
              \<lparr>booking_task = Some 0, booking_resource = Some 1,
               booking_start = 1, booking_end = 10\<rparr>]\<rparr>)"
  by (simp add: overlap_as_specified_def Booking_init_def validate_task_def
      validate_resource_def overbooked_def Let_def)


section \<open>Properties of the cycle detection\<close>

lemma check_circular_loop_Nil:
  "check_circular_loop s [] c a = Some (Inr ())"
  by (simp add: check_circular_loop.simps)

lemma check_circular_loop_Cons:
  "check_circular_loop s (d # rest) c a =
     (if d = c then Some (Inl CircularDependencyError)
      else Option.bind (check_circular_loop s (getattr_tasks s d a) c a)
             (\<lambda>r. case r of Inl e \<Rightarrow> Some (Inl e)
                   | Inr u \<Rightarrow> check_circular_loop s rest c a))"
  by (subst check_circular_loop.simps) simp

lemma reached_step:
  "reached s a (d # rest) c = (d = c \<or> reached s a (getattr_tasks s d a) c \<or> reached s a rest c)"
proof -
  have "(c, d) \<in> (edges s a)\<^sup>* \<longleftrightarrow>
          d = c \<or> (\<exists>d'\<in>set (getattr_tasks s d a). (c, d') \<in> (edges s a)\<^sup>*)"
  proof
    assume "(c, d) \<in> (edges s a)\<^sup>*"
    then show "d = c \<or> (\<exists>d'\<in>set (getattr_tasks s d a). (c, d') \<in> (edges s a)\<^sup>*)"
      by (cases rule: rtranclE) (auto simp: edges_def)
  next
    assume "d = c \<or> (\<exists>d'\<in>set (getattr_tasks s d a). (c, d') \<in> (edges s a)\<^sup>*)"
    then show "(c, d) \<in> (edges s a)\<^sup>*"
      by (auto simp: edges_def intro: rtrancl_into_rtrancl)
  qed
  then show ?thesis
    by (auto simp: reached_def)
qed

lemma reached_trancl:
  "reached s a (getattr_tasks s t a) c = ((c, t) \<in> (edges s a)\<^sup>+)"
proof -
  have "(c, t) \<in> (edges s a)\<^sup>+ \<longleftrightarrow> (\<exists>d. (c, d) \<in> (edges s a)\<^sup>* \<and> (d, t) \<in> edges s a)"
    by (metis rtrancl_into_trancl1 tranclD2)
  then show ?thesis
    by (auto simp: reached_def edges_def)
qed

text \<open>
  The loop over a list returns what the walk should, once the loops over the lists of its
  elements do.
\<close>

lemma check_circular_loop_list:
  assumes "\<forall>d\<in>set ds. check_circular_loop s (getattr_tasks s d a) c a
             = Some (outcome (reached s a (getattr_tasks s d a) c))"
  shows "check_circular_loop s ds c a = Some (outcome (reached s a ds c))"
  using assms
proof (induction ds)
  case Nil
  show ?case by (simp add: check_circular_loop_Nil reached_def outcome_def)
next
  case (Cons d rest)
  then have inner: "check_circular_loop s (getattr_tasks s d a) c a
             = Some (outcome (reached s a (getattr_tasks s d a) c))"
    and rest: "check_circular_loop s rest c a = Some (outcome (reached s a rest c))"
    by simp_all
  show ?case
    by (simp add: check_circular_loop_Cons [of s d rest] inner rest reached_step [of s a d rest]
        outcome_def)
qed

text \<open>Well-founded induction along the relation, then the loop over the start list.\<close>

lemma check_circular_loop_node:
  assumes "wf (edges s a)"
  shows "check_circular_loop s (getattr_tasks s t a) c a
             = Some (outcome (reached s a (getattr_tasks s t a) c))"
  using assms
proof (induction t rule: wf_induct_rule)
  case (less t)
  show ?case
  proof (rule check_circular_loop_list, rule ballI)
    fix d assume "d \<in> set (getattr_tasks s t a)"
    then have "(d, t) \<in> edges s a" by (simp add: edges_def)
    then show "check_circular_loop s (getattr_tasks s d a) c a
             = Some (outcome (reached s a (getattr_tasks s d a) c))"
      by (rule less)
  qed
qed

lemma check_circular_dependency_wf:
  assumes "wf (edges s a)"
  shows "check_circular_dependency s task c a =
           Some (outcome ((c, task) \<in> (edges s a)\<^sup>+))"
  unfolding check_circular_dependency_def
  by (simp add: check_circular_loop_node [OF assms] reached_trancl)

text \<open>
  On a task whose list is the task itself, the walk for any other task calls itself with
  the same arguments: by the induction rule of the least fixed point it returns nothing.
\<close>

lemma check_circular_loop_self_loop_aux:
  assumes "check_circular_loop s' ds c' a' = Some y"
    and "getattr_tasks s t a = [t]" and "t \<noteq> c"
  shows "\<not> (s' = s \<and> ds = [t] \<and> c' = c \<and> a' = a)"
  using assms(1)
proof (rule check_circular_loop.raw_induct
    [rotated 1, where P = "\<lambda>s' ds c' a' y. \<not> (s' = s \<and> ds = [t] \<and> c' = c \<and> a' = a)"])
  fix f s' ds c' a' y
  assume IH: "\<And>s' ds c' a' y. f s' ds c' a' = Some y \<Longrightarrow>
                \<not> (s' = s \<and> ds = [t] \<and> c' = c \<and> a' = a)"
    and body: "(case ds of
        [] \<Rightarrow> Some (Inr ())
      | dependent_task # rest \<Rightarrow>
          if dependent_task = c' then Some (Inl CircularDependencyError)
          else Option.bind (f s' (getattr_tasks s' dependent_task a') c' a')
                 (\<lambda>r. case r of Inl e \<Rightarrow> Some (Inl e) | Inr u \<Rightarrow> f s' rest c' a')) = Some y"
  show "\<not> (s' = s \<and> ds = [t] \<and> c' = c \<and> a' = a)"
  proof
    assume eq: "s' = s \<and> ds = [t] \<and> c' = c \<and> a' = a"
    with body assms(2,3) obtain r where "f s [t] c a = Some r"
      by (auto simp: bind_eq_Some_conv)
    from IH [OF this] show False by simp
  qed
qed

lemma check_circular_loop_self_loop:
  assumes "getattr_tasks s t a = [t]" and "t \<noteq> c"
  shows "check_circular_loop s [t] c a = None"
proof (cases "check_circular_loop s [t] c a")
  case None
  then show ?thesis .
next
  case (Some y)
  from check_circular_loop_self_loop_aux [OF Some assms] show ?thesis by simp
qed

lemma wf_chain_store: "wf (edges chain_store Depends)"
proof (rule wf_subset [OF wf_measure [of "\<lambda>t. 3 - t"]])
  show "edges chain_store Depends \<subseteq> measure (\<lambda>t. 3 - t)"
    by (auto simp: edges_def chain_store_def empty_store_def new_task_def split: if_splits)
qed

text \<open>
  Claim C8, as the code has it. When the traversed relation has no cycle (it is
  well-founded), the walk returns on every task and every \<^verbatim>\<open>check_for_task\<close>: it
  raises CircularDependencyError when \<^verbatim>\<open>check_for_task\<close> can be reached from \<^verbatim>\<open>task\<close>
  in one or more steps and returns normally otherwise. The walk keeps no record of the
  tasks it has visited, so nothing is promised on a relation that already has a cycle.
\<close>

theorem cycle_check_returns_on_acyclic:
  assumes "wf (edges s a)"
  shows "check_circular_dependency s task c a =
           Some (if (c, task) \<in> (edges s a)\<^sup>+ then Inl CircularDependencyError else Inr ())"
  using check_circular_dependency_wf [OF assms] by (simp add: outcome_def)

theorem cycle_check_returns_on_acyclic_witness:
  "wf (edges chain_store Depends) \<and>
   check_circular_dependency chain_store 0 2 Depends = Some (Inl CircularDependencyError) \<and>
   (2, 0) \<in> (edges chain_store Depends)\<^sup>+"
proof -
  have run: "check_circular_dependency chain_store 0 2 Depends
               = Some (Inl CircularDependencyError)"
    by (simp add: check_circular_dependency_def check_circular_loop_Cons
        check_circular_loop_Nil chain_store_def empty_store_def new_task_def)
  from cycle_check_returns_on_acyclic [OF wf_chain_store, of 0 2] run
  have "(2, 0) \<in> (edges chain_store Depends)\<^sup>+"
    by (simp split: if_splits)
  with run wf_chain_store show ?thesis by simp
qed

text \<open>
  The claim as stated, that the walk returns also on a relation that already has a cycle,
  fails on the smallest one: task 0 depends on itself, and the check for task 1 from
  task 0 never returns (the interpreter ends it with its recursion limit).
\<close>

theorem cycle_check_diverges_counterexample:
  "check_circular_dependency self_loop_store 0 1 Depends = None"
  unfolding check_circular_dependency_def
  by (simp add: check_circular_loop_self_loop self_loop_store_def)

section \<open>Properties of the structural mutations\<close>

lemma edges_append_depends:
  "edges (s(self := (s self)\<lparr>depends := depends (s self) @ [d]\<rparr>)) Depends
     = insert (d, self) (edges s Depends)"
  by (auto simp: edges_def)

text \<open>
  On an acyclic dependency relation, a dependency on a task that already depends on
  \<open>self\<close>, directly or through others, is refused and the object graph stays as it was.
\<close>

lemma append_depends_rejects_cycle:
  assumes "wf (edges s Depends)" and "(self, d) \<in> (edges s Depends)\<^sup>+"
  shows "append_depends s self (Instance d) = Some (Inl CircularDependencyError, s)"
  using assms(2)
  by (simp add: append_depends_def validate_depends_def
      check_circular_dependency_wf [OF assms(1)] outcome_def)

lemma append_depends_accepts:
  assumes "wf (edges s Depends)" and "(self, d) \<notin> (edges s Depends)\<^sup>+"
  shows "append_depends s self (Instance d)
           = Some (Inr (), s(self := (s self)\<lparr>depends := depends (s self) @ [d]\<rparr>))"
  using assms(2)
  by (simp add: append_depends_def validate_depends_def
      check_circular_dependency_wf [OF assms(1)] outcome_def)

text \<open>
  An accepted dependency on another task keeps the relation acyclic: the only accepted
  addition that closes a cycle is the one of a task to its own list.
\<close>

lemma append_depends_preserves_acyclic:
  assumes "wf (edges s Depends)" and "self \<noteq> d"
    and "append_depends s self (Instance d) = Some (Inr (), s')"
  shows "wf (edges s' Depends)"
proof -
  have nt: "(self, d) \<notin> (edges s Depends)\<^sup>+"
  proof
    assume "(self, d) \<in> (edges s Depends)\<^sup>+"
    from append_depends_rejects_cycle [OF assms(1) this] assms(3) show False by simp
  qed
  with assms(2) have "(self, d) \<notin> (edges s Depends)\<^sup>*"
    by (auto simp: rtrancl_eq_or_trancl)
  moreover from append_depends_accepts [OF assms(1) nt] assms(3)
  have "s' = s(self := (s self)\<lparr>depends := depends (s self) @ [d]\<rparr>)" by simp
  ultimately show ?thesis
    using assms(1) by (simp add: edges_append_depends)
qed

text \<open>
  On an acyclic tree, taking a descendant as the new parent is refused and the object
  graph stays as it was.
\<close>

lemma set_parent_rejects_cycle:
  assumes "wf (edges s Children)" and "(p, self) \<in> (edges s Children)\<^sup>+"
  shows "set_parent s self (Instance p) = Some (Inl CircularDependencyError, s)"
  using assms(2)
  by (simp add: set_parent_def validate_parent_def
      check_circular_dependency_wf [OF assms(1)] outcome_def)

text \<open>
  Claim C1 at the input where the code departs from it. A task with no dependencies is
  appended to its own \<^verbatim>\<open>depends\<close> list: the walk starts in the list of the appended
  task, which is empty, so nothing is raised, and afterwards the task depends on itself.
\<close>

theorem self_dependency_accepted:
  "append_depends empty_store 0 (Instance 0) = Some (Inr (), self_loop_store) \<and>
   (0, 0) \<in> (edges self_loop_store Depends)\<^sup>+"
proof -
  have "(0, 0) \<in> edges self_loop_store Depends"
    by (simp add: edges_def self_loop_store_def)
  then have "(0, 0) \<in> (edges self_loop_store Depends)\<^sup>+" ..
  moreover have "append_depends empty_store 0 (Instance 0) = Some (Inr (), self_loop_store)"
    by (simp add: append_depends_def validate_depends_def check_circular_dependency_def
        check_circular_loop_Nil empty_store_def new_task_def self_loop_store_def)
  ultimately show ?thesis by simp
qed

text \<open>
  Claim C2 at the input where the code departs from it. A task with no children is
  assigned as its own parent: the walk goes through the children of the task, which are
  none, so nothing is raised, and afterwards the task is its own parent and its own child.
\<close>

theorem self_parent_accepted:
  "set_parent empty_store 0 (Instance 0) =
     Some (Inr (), empty_store(0 := new_task\<lparr>parent := Some 0, children := [0]\<rparr>))"
  by (simp add: set_parent_def validate_parent_def check_circular_dependency_def
      check_circular_loop_Nil empty_store_def new_task_def detach_child_def attach_child_def
      validate_children_def Let_def)

section \<open>Properties of the project of a task\<close>

lemma set_parent_fresh_None:
  assumes "parent (s self) = None"
  shows "set_parent s self PyNone = Some (Inr (), s)"
  using assms by (simp add: set_parent_def validate_parent_def)

lemma set_parent_Foreign:
  "set_parent s self Foreign = Some (Inl TypeError, s)"
  by (simp add: set_parent_def validate_parent_def)

lemma set_parent_fresh_Instance:
  assumes "parent (s self) = None" and "children (s self) = []"
  shows "\<exists>s1. set_parent s self (Instance p) = Some (Inr (), s1) \<and>
           parent (s1 self) = Some p \<and> project_attr (s1 p) = project_attr (s p)"
  using assms
  by (simp add: set_parent_def validate_parent_def check_circular_dependency_def
      check_circular_loop_Nil detach_child_def attach_child_def validate_children_def Let_def)

lemma validates_project_with_parent:
  assumes "parent (s self) = Some p" and "project_attr (s p) = Some q0"
  shows "validates_project s self PyNone = Inr ([], Some q0)"
    and "validates_project s self (Instance q) =
           (if q = q0 then Inr ([], Some q0) else Inr ([RuntimeWarning], Some q0))"
    and "validates_project s self Foreign = Inl TypeError"
  using assms by (auto simp: validates_project_def)

lemma validates_project_without_parent:
  assumes "parent (s self) = None"
  shows "validates_project s self PyNone = Inl TypeError"
    and "validates_project s self (Instance q) = Inr ([], Some q)"
    and "validates_project s self Foreign = Inl TypeError"
  using assms by (auto simp: validates_project_def)

text \<open>
  Claim C10, as the code has it. \<open>self\<close> is the task under construction (no parent yet,
  no children). With neither project nor parent the construction raises TypeError and
  changes nothing, as it does with an object of another class as project or as parent.
  Without parent the task gets the project argument. With a parent that has a project
  the task gets the project of the parent, whether the project argument is \<^verbatim>\<open>None\<close>,
  the same project, or another one; in the last case the argument is dropped and a
  RuntimeWarning is emitted. So the two assignments always return, and a task that is
  constructed with a parent that has a project, or without parent, has a project.
\<close>

theorem task_project_from_parent_or_argument:
  assumes "parent (s self) = None" and "children (s self) = []"
  shows
   "init_parent_project s self PyNone PyNone = Some (Inl TypeError, s) \<and>
    init_parent_project s self PyNone Foreign = Some (Inl TypeError, s) \<and>
    init_parent_project s self Foreign project_in = Some (Inl TypeError, s) \<and>
    init_parent_project s self PyNone (Instance q)
      = Some (Inr [], s(self := (s self)\<lparr>project_attr := Some q\<rparr>)) \<and>
    (project_attr (s p) = Some q0 \<longrightarrow>
       (\<exists>s'. init_parent_project s self (Instance p) PyNone = Some (Inr [], s') \<and>
             project_attr (s' self) = Some q0 \<and> parent (s' self) = Some p) \<and>
       (\<exists>s'. init_parent_project s self (Instance p) (Instance q0) = Some (Inr [], s') \<and>
             project_attr (s' self) = Some q0 \<and> parent (s' self) = Some p) \<and>
       (q \<noteq> q0 \<longrightarrow>
          (\<exists>s'. init_parent_project s self (Instance p) (Instance q)
                  = Some (Inr [RuntimeWarning], s') \<and>
                project_attr (s' self) = Some q0 \<and> parent (s' self) = Some p)) \<and>
       (\<exists>s'. init_parent_project s self (Instance p) Foreign = Some (Inl TypeError, s'))) \<and>
    ((\<forall>p. parent_in = Instance p \<longrightarrow> project_attr (s p) \<noteq> None) \<longrightarrow>
       (\<exists>r. init_parent_project s self parent_in project_in = Some r) \<and>
       (\<forall>ws s'. init_parent_project s self parent_in project_in = Some (Inr ws, s') \<longrightarrow>
           project_attr (s' self) \<noteq> None))"
proof (intro conjI impI)
  note none = set_parent_fresh_None [of s self, OF assms(1)]
    validates_project_without_parent [of s self, OF assms(1)]
  show "init_parent_project s self PyNone PyNone = Some (Inl TypeError, s)"
    by (simp add: init_parent_project_def none)
  show "init_parent_project s self PyNone Foreign = Some (Inl TypeError, s)"
    by (simp add: init_parent_project_def none)
  show "init_parent_project s self Foreign project_in = Some (Inl TypeError, s)"
    by (simp add: init_parent_project_def set_parent_Foreign)
  show "init_parent_project s self PyNone (Instance q)
      = Some (Inr [], s(self := (s self)\<lparr>project_attr := Some q\<rparr>))"
    by (simp add: init_parent_project_def none)
next
  assume q0: "project_attr (s p) = Some q0"
  from set_parent_fresh_Instance [of s self p, OF assms] q0
  obtain s1 where s1: "set_parent s self (Instance p) = Some (Inr (), s1)"
    "parent (s1 self) = Some p" "project_attr (s1 p) = Some q0"
    by auto
  note wp = validates_project_with_parent [of s1 self p q0, OF s1(2,3)]
  show "\<exists>s'. init_parent_project s self (Instance p) PyNone = Some (Inr [], s') \<and>
             project_attr (s' self) = Some q0 \<and> parent (s' self) = Some p"
    by (simp add: init_parent_project_def s1(1,2) wp)
  show "\<exists>s'. init_parent_project s self (Instance p) (Instance q0) = Some (Inr [], s') \<and>
             project_attr (s' self) = Some q0 \<and> parent (s' self) = Some p"
    by (simp add: init_parent_project_def s1(1,2) wp)
  show "\<exists>s'. init_parent_project s self (Instance p) Foreign = Some (Inl TypeError, s')"
    by (simp add: init_parent_project_def s1(1,2) wp)
  assume "q \<noteq> q0"
  then show "\<exists>s'. init_parent_project s self (Instance p) (Instance q)
                  = Some (Inr [RuntimeWarning], s') \<and>
                project_attr (s' self) = Some q0 \<and> parent (s' self) = Some p"
    by (simp add: init_parent_project_def s1(1,2) wp)
next
  assume par: "\<forall>p. parent_in = Instance p \<longrightarrow> project_attr (s p) \<noteq> None"
  have both: "(\<exists>r. init_parent_project s self parent_in project_in = Some r) \<and>
       (\<forall>ws s'. init_parent_project s self parent_in project_in = Some (Inr ws, s') \<longrightarrow>
           project_attr (s' self) \<noteq> None)"
  proof (cases parent_in)
    case PyNone
    then show ?thesis
      by (cases project_in)
        (simp_all add: init_parent_project_def set_parent_fresh_None [of s self, OF assms(1)]
          validates_project_without_parent [of s self, OF assms(1)])
  next
    case Foreign
    then show ?thesis
      by (simp add: init_parent_project_def set_parent_Foreign)
  next
    case (Instance p)
    with par obtain q0 where q0: "project_attr (s p) = Some q0" by auto
    from set_parent_fresh_Instance [of s self p, OF assms] q0
    obtain s1 where s1: "set_parent s self (Instance p) = Some (Inr (), s1)"
      "parent (s1 self) = Some p" "project_attr (s1 p) = Some q0"
      by auto
    show ?thesis
      by (cases project_in)
        (simp_all add: init_parent_project_def Instance s1(1)
          validates_project_with_parent [of s1 self p q0, OF s1(2,3)])
  qed
  from both show "\<exists>r. init_parent_project s self parent_in project_in = Some r" ..
  from both show "\<forall>ws s'. init_parent_project s self parent_in project_in = Some (Inr ws, s') \<longrightarrow>
           project_attr (s' self) \<noteq> None" ..
qed

theorem task_project_from_parent_or_argument_witness:
  "parent (project_store 0) = None \<and> children (project_store 0) = [] \<and>
   project_attr (project_store 1) = Some 7 \<and>
   init_parent_project project_store 0 PyNone PyNone = Some (Inl TypeError, project_store) \<and>
   init_parent_project project_store 0 PyNone (Instance 9)
     = Some (Inr [], project_store(0 := (project_store 0)\<lparr>project_attr := Some 9\<rparr>)) \<and>
   (\<exists>s'. init_parent_project project_store 0 (Instance 1) PyNone = Some (Inr [], s') \<and>
       project_attr (s' 0) = Some 7) \<and>
   (\<exists>s'. init_parent_project project_store 0 (Instance 1) (Instance 9)
            = Some (Inr [RuntimeWarning], s') \<and>
       project_attr (s' 0) = Some 7)"
proof -
  have fresh: "parent (project_store 0) = None" "children (project_store 0) = []"
    by (simp_all add: project_store_def empty_store_def new_task_def)
  have par: "project_attr (project_store 1) = Some 7"
    by (simp add: project_store_def)
  have ne: "(9::nat) \<noteq> 7" by simp
  from task_project_from_parent_or_argument [of project_store 0 PyNone 9 1 7 PyNone, OF fresh]
    par ne fresh
  show ?thesis by auto
qed

text \<open>
  The claim as stated fails twice. A task constructed with project 9 and the parent 1,
  which belongs to project 7, gets project 7: its project is not the project argument,
  and the argument is not \<^verbatim>\<open>None\<close>. And a task can be constructed without a project:
  the construction of task 0 with parent 1 and an object of another class as project
  raises TypeError after the parent was assigned, and task 2, constructed with project 9
  and task 0 as parent, gets the project of task 0, which is \<^verbatim>\<open>None\<close>.
\<close>

theorem task_project_counterexample:
  "map_option (\<lambda>(r, s'). (r, project_attr (s' 0)))
     (init_parent_project project_store 0 (Instance 1) (Instance 9))
     = Some (Inr [RuntimeWarning], Some 7) \<and>
   init_parent_project project_store 0 (Instance 1) Foreign
     = Some (Inl TypeError, half_built_store) \<and>
   project_attr (half_built_store 0) = None \<and>
   map_option (\<lambda>(r, s'). (r, project_attr (s' 2)))
     (init_parent_project half_built_store 2 (Instance 0) (Instance 9))
     = Some (Inr [RuntimeWarning], None)"
  by (simp add: init_parent_project_def set_parent_def validate_parent_def
      check_circular_dependency_def check_circular_loop_Nil detach_child_def
      attach_child_def validate_children_def validates_project_def Let_def
      half_built_store_def project_store_def empty_store_def new_task_def)

section \<open>Properties of effort and duration\<close>

lemma num_of_resources_pos: "0 < num_of_resources self"
  by (simp add: num_of_resources_def)

lemma div_mult_resources: "(x * num_of_resources self) div num_of_resources self = x"
  using num_of_resources_pos [of self] by simp

lemma num_of_resources_store_dates [simp]:
  "num_of_resources (store_dates self r) = num_of_resources self"
  by (cases r) (simp add: store_dates_def num_of_resources_def)

lemma num_of_resources_effort [simp]:
  "num_of_resources (self\<lparr>effort_attr := e\<rparr>) = num_of_resources self"
  by (simp add: num_of_resources_def)

lemma store_dates_fields [simp]:
  "effort_attr (store_dates self r) = effort_attr self"
  "duration_attr (store_dates self r) = snd (snd r)"
  "start_attr (store_dates self r) = fst r"
  "resources (store_dates self r) = resources self"
  "children (store_dates self r) = children self"
  by (cases r; simp add: store_dates_def)+

lemma duration_dates_call: "\<exists>st en d. duration_dates vd self duration = vd st en d"
  by (cases duration) (auto simp: duration_dates_def)

lemma dates_stableD:
  assumes "dates_stable vd"
  shows "snd (snd (vd (Instance (fst (vd st en d))) PyNone (Instance (snd (snd (vd st en d))))))
           = snd (snd (vd st en d))"
  using assms [unfolded dates_stable_def, rule_format, of st en d]
  by (auto split: prod.splits)

text \<open>
  The duration setter comes to rest at once on a task that holds what a call of
  \<^verbatim>\<open>_validate_dates\<close> has stored and the matching effort.
\<close>

lemma duration_setter_settled:
  assumes "dates_stable vd"
    and "start_attr self = fst (vd st en d)" and "duration_attr self = snd (snd (vd st en d))"
    and "effort_attr self = Some (snd (snd (vd st en d)) * num_of_resources self)"
  shows "\<exists>self'. duration_setter (Suc n) vd self (Instance (snd (snd (vd st en d)))) = Some self' \<and>
           effort_attr self' = Some (duration_attr self' * num_of_resources self') \<and>
           resources self' = resources self \<and> children self' = children self \<and>
           duration_attr self' = snd (snd (vd st en d))"
  using dates_stableD [OF assms(1), of st en d] assms(2-)
  by (simp add: Let_def duration_dates_def)

lemma effort_setter_after_dates:
  assumes "dates_stable vd"
    and "start_attr self = fst (vd st en d)" and "duration_attr self = snd (snd (vd st en d))"
  shows "\<exists>self'. effort_setter (Suc (Suc n)) vd self
                    (Instance (snd (snd (vd st en d)) * num_of_resources self)) = Some self' \<and>
           effort_attr self' = Some (duration_attr self' * num_of_resources self') \<and>
           resources self' = resources self \<and> children self' = children self \<and>
           duration_attr self' = snd (snd (vd st en d))"
proof -
  let ?self1 = "self\<lparr>effort_attr := Some (snd (snd (vd st en d)) * num_of_resources self)\<rparr>"
  have "\<exists>self'. duration_setter (Suc n) vd ?self1 (Instance (snd (snd (vd st en d)))) = Some self' \<and>
           effort_attr self' = Some (duration_attr self' * num_of_resources self') \<and>
           resources self' = resources ?self1 \<and> children self' = children ?self1 \<and>
           duration_attr self' = snd (snd (vd st en d))"
    by (rule duration_setter_settled [OF assms(1)]) (simp_all add: assms(2,3))
  then show ?thesis
    by (simp add: validate_effort_def div_mult_resources Let_def del: duration_setter.simps)
qed

lemma duration_setter_returns:
  assumes "dates_stable vd"
  shows "\<exists>self'. duration_setter (Suc (Suc (Suc n))) vd self duration = Some self' \<and>
           effort_attr self' = Some (duration_attr self' * num_of_resources self') \<and>
           resources self' = resources self \<and> children self' = children self \<and>
           duration_attr self' = snd (snd (duration_dates vd self duration))"
proof -
  obtain st en d where r: "duration_dates vd self duration = vd st en d"
    using duration_dates_call by blast
  define self1 where "self1 = store_dates self (duration_dates vd self duration)"
  have unfold: "duration_setter (Suc (Suc (Suc n))) vd self duration =
          (if effort_attr self1 \<noteq> Some (duration_attr self1 * num_of_resources self1)
           then effort_setter (Suc (Suc n)) vd self1
                  (Instance (duration_attr self1 * num_of_resources self1))
           else Some self1)"
    by (simp add: self1_def Let_def del: effort_setter.simps)
  show ?thesis
  proof (cases "effort_attr self1 = Some (duration_attr self1 * num_of_resources self1)")
    case True
    then show ?thesis
      unfolding unfold by (simp add: self1_def)
  next
    case False
    have "\<exists>self'. effort_setter (Suc (Suc n)) vd self1
                    (Instance (snd (snd (vd st en d)) * num_of_resources self1)) = Some self' \<and>
           effort_attr self' = Some (duration_attr self' * num_of_resources self') \<and>
           resources self' = resources self1 \<and> children self' = children self1 \<and>
           duration_attr self' = snd (snd (vd st en d))"
      by (rule effort_setter_after_dates [OF assms]) (simp_all add: self1_def r)
    with False show ?thesis
      unfolding unfold by (auto simp: self1_def r simp del: effort_setter.simps)
  qed
qed

lemma effort_setter_returns:
  assumes "dates_stable vd"
  shows "\<exists>self'. effort_setter (Suc (Suc (Suc (Suc n)))) vd self effort_in = Some self' \<and>
           effort_attr self' = Some (duration_attr self' * num_of_resources self') \<and>
           resources self' = resources self \<and> children self' = children self \<and>
           duration_attr self' =
             snd (snd (vd (Instance (start_attr self)) PyNone
                         (Instance (validate_effort self effort_in div num_of_resources self))))"
proof -
  let ?self1 = "self\<lparr>effort_attr := Some (validate_effort self effort_in)\<rparr>"
  from duration_setter_returns [OF assms, of n ?self1
      "Instance (validate_effort self effort_in div num_of_resources self)"]
  show ?thesis
    by (simp add: Let_def duration_dates_def del: duration_setter.simps)
qed

lemma dates_stable_simple_dates: "dates_stable simple_dates"
  by (auto simp: dates_stable_def simple_dates_def split: pyobj.splits)

text \<open>
  Claim C4. \<open>self\<close> is a leaf task, and \<^verbatim>\<open>_validate_dates\<close> stores the same duration
  again when it is given what it has stored. The resource count of the setters is
  \<open>max(1, |resources|)\<close>. A write to the effort returns once the setters may call each
  other four deep, a write to the duration three deep, and both leave
  \<open>effort = duration * max(1, |resources|)\<close>, with the resources untouched. After a write
  to the effort the duration is what \<^verbatim>\<open>_validate_dates\<close> stores for the effort divided by
  the resource count; after a write to the duration the effort is the stored duration
  times the resource count. When the effort already has that value, the duration setter
  returns without calling the effort setter.
\<close>

theorem effort_duration_reconciled:
  assumes "children self = []" and "dates_stable vd"
  shows
   "num_of_resources self = max 1 (int (length (resources self))) \<and>
    (\<exists>self'. effort_setter (Suc (Suc (Suc (Suc n)))) vd self effort_in = Some self' \<and>
        effort_attr self' = Some (duration_attr self' * num_of_resources self') \<and>
        resources self' = resources self \<and> children self' = [] \<and>
        duration_attr self' =
          snd (snd (vd (Instance (start_attr self)) PyNone
                      (Instance (validate_effort self effort_in div num_of_resources self))))) \<and>
    (\<exists>self'. duration_setter (Suc (Suc (Suc n))) vd self duration_in = Some self' \<and>
        effort_attr self' = Some (duration_attr self' * num_of_resources self') \<and>
        resources self' = resources self \<and> children self' = [] \<and>
        duration_attr self' = snd (snd (duration_dates vd self duration_in))) \<and>
    (effort_attr self = Some (snd (snd (duration_dates vd self duration_in)) * num_of_resources self)
       \<longrightarrow> duration_setter (Suc 0) vd self duration_in
             = Some (store_dates self (duration_dates vd self duration_in)))"
proof (intro conjI)
  show "num_of_resources self = max 1 (int (length (resources self)))"
    by (cases "resources self") (simp_all add: num_of_resources_def)
  from effort_setter_returns [OF assms(2), of n self effort_in] assms(1)
  show "\<exists>self'. effort_setter (Suc (Suc (Suc (Suc n)))) vd self effort_in = Some self' \<and>
        effort_attr self' = Some (duration_attr self' * num_of_resources self') \<and>
        resources self' = resources self \<and> children self' = [] \<and>
        duration_attr self' =
          snd (snd (vd (Instance (start_attr self)) PyNone
                      (Instance (validate_effort self effort_in div num_of_resources self))))"
    by auto
  from duration_setter_returns [OF assms(2), of n self duration_in] assms(1)
  show "\<exists>self'. duration_setter (Suc (Suc (Suc n))) vd self duration_in = Some self' \<and>
        effort_attr self' = Some (duration_attr self' * num_of_resources self') \<and>
        resources self' = resources self \<and> children self' = [] \<and>
        duration_attr self' = snd (snd (duration_dates vd self duration_in))"
    by auto
  show "effort_attr self = Some (snd (snd (duration_dates vd self duration_in)) * num_of_resources self)
       \<longrightarrow> duration_setter (Suc 0) vd self duration_in
             = Some (store_dates self (duration_dates vd self duration_in))"
    by (simp add: Let_def)
qed

theorem effort_duration_reconciled_witness:
  "children two_resources = [] \<and> dates_stable simple_dates \<and>
   effort_setter 4 simple_dates two_resources (Instance 5)
     = Some (two_resources\<lparr>end_attr := 2, duration_attr := 2, effort_attr := Some 4\<rparr>) \<and>
   duration_setter 3 simple_dates two_resources (Instance 5)
     = Some (two_resources\<lparr>end_attr := 5, duration_attr := 5, effort_attr := Some 10\<rparr>) \<and>
   (\<exists>self'. effort_setter 4 simple_dates two_resources (Instance 5) = Some self' \<and>
        effort_attr self' = Some (duration_attr self' * num_of_resources self'))"
proof -
  have leaf: "children two_resources = []"
    by (simp add: two_resources_def new_task_def)
  have four: "Suc (Suc (Suc (Suc 0))) = 4" and three: "Suc (Suc (Suc 0)) = 3"
    by simp_all
  from effort_duration_reconciled [OF leaf dates_stable_simple_dates, of 0 "Instance 5" "Instance 5"]
  have "\<exists>self'. effort_setter 4 simple_dates two_resources (Instance 5) = Some self' \<and>
        effort_attr self' = Some (duration_attr self' * num_of_resources self')"
    unfolding four by blast
  moreover have "effort_setter 4 simple_dates two_resources (Instance 5)
     = Some (two_resources\<lparr>end_attr := 2, duration_attr := 2, effort_attr := Some 4\<rparr>)"
    by (simp add: eval_nat_numeral Let_def validate_effort_def duration_dates_def store_dates_def
        simple_dates_def num_of_resources_def two_resources_def new_task_def)
  moreover have "duration_setter 3 simple_dates two_resources (Instance 5)
     = Some (two_resources\<lparr>end_attr := 5, duration_attr := 5, effort_attr := Some 10\<rparr>)"
    by (simp add: eval_nat_numeral Let_def validate_effort_def duration_dates_def store_dates_def
        simple_dates_def num_of_resources_def two_resources_def new_task_def)
  ultimately show ?thesis
    using leaf dates_stable_simple_dates by blast
qed



section \<open>Properties of start and end\<close>

lemma wf_no_back_edge:
  assumes "wf r" and "(c, t) \<in> r"
  shows "(t, c) \<notin> r\<^sup>*"
proof
  assume "(t, c) \<in> r\<^sup>*"
  from this assms(2) have "(t, t) \<in> r\<^sup>+" by (rule rtrancl_into_trancl1)
  moreover from assms(1) have "wf (r\<^sup>+)" by (rule wf_trancl)
  ultimately show False by (simp add: wf_not_refl)
qed

lemma Min_insert_min:
  fixes a x :: "'a::linorder"
  assumes "finite S"
  shows "Min (insert (min x a) S) = Min (insert a (insert x S))"
proof (cases "S = {}")
  case True
  then show ?thesis by (simp add: min.commute)
next
  case False
  with assms show ?thesis
    by (simp add: min.assoc min.left_commute min.commute)
qed

lemma Min_image_le:
  fixes b :: "'a::linorder"
  assumes "c0 \<in> set cs" and "\<forall>c\<in>set cs. V c \<le> b"
  shows "Min (V ` set cs) \<le> b"
proof -
  from assms(1) have "Min (V ` set cs) \<le> V c0" by simp
  also from assms have "V c0 \<le> b" by simp
  finally show ?thesis .
qed

lemma Max_insert_max:
  fixes a x :: "'a::linorder"
  assumes "finite S"
  shows "Max (insert (max x a) S) = Max (insert a (insert x S))"
proof (cases "S = {}")
  case True
  then show ?thesis by (simp add: max.commute)
next
  case False
  with assms show ?thesis
    by (simp add: max.assoc max.left_commute max.commute)
qed

lemma Max_image_ge:
  fixes b :: "'a::linorder"
  assumes "c0 \<in> set cs" and "\<forall>c\<in>set cs. b \<le> V c"
  shows "b \<le> Max (V ` set cs)"
proof -
  from assms have "b \<le> V c0" by simp
  also from assms(1) have "V c0 \<le> Max (V ` set cs)" by simp
  finally show ?thesis .
qed

subsection \<open>Reading the start\<close>

lemma start_cached_refl: "start_cached s s"
  unfolding start_cached_def
proof (intro allI conjI impI)
  fix u show "\<exists>x. s u = (s u)\<lparr>start_attr := x\<rparr>"
    by (rule exI [of _ "start_attr (s u)"]) simp
qed simp

lemma start_cached_children:
  assumes "start_cached s s'"
  shows "children (s' u) = children (s u)"
proof -
  from assms obtain x where "s' u = (s u)\<lparr>start_attr := x\<rparr>"
    unfolding start_cached_def by blast
  then show ?thesis by simp
qed

lemma start_cached_leaf:
  assumes "start_cached s s'" and "children (s u) = []"
  shows "s' u = s u"
  using assms unfolding start_cached_def by blast

lemma start_cached_trans:
  assumes "start_cached s s1" and "start_cached s1 s2"
  shows "start_cached s s2"
  unfolding start_cached_def
proof (intro allI conjI impI)
  fix u
  from assms(1) obtain x where x: "s1 u = (s u)\<lparr>start_attr := x\<rparr>"
    unfolding start_cached_def by blast
  from assms(2) obtain y where y: "s2 u = (s1 u)\<lparr>start_attr := y\<rparr>"
    unfolding start_cached_def by blast
  from x y have "s2 u = (s u)\<lparr>start_attr := y\<rparr>" by simp
  then show "\<exists>x. s2 u = (s u)\<lparr>start_attr := x\<rparr>" ..
next
  fix u assume leaf: "children (s u) = []"
  with assms(1) have 1: "s1 u = s u" by (rule start_cached_leaf)
  with leaf assms(2) show "s2 u = s u" by (simp add: start_cached_leaf)
qed

lemma start_cached_update:
  assumes "children (s t) \<noteq> []"
  shows "start_cached s (s(t := (s t)\<lparr>start_attr := x\<rparr>))"
  unfolding start_cached_def
proof (intro allI conjI impI)
  fix u
  show "\<exists>y. (s(t := (s t)\<lparr>start_attr := x\<rparr>)) u = (s u)\<lparr>start_attr := y\<rparr>"
  proof (cases "u = t")
    case True
    then show ?thesis by auto
  next
    case False
    then have "(s(t := (s t)\<lparr>start_attr := x\<rparr>)) u = (s u)\<lparr>start_attr := start_attr (s u)\<rparr>"
      by simp
    then show ?thesis ..
  qed
next
  fix u assume "children (s u) = []"
  with assms have "u \<noteq> t" by auto
  then show "(s(t := (s t)\<lparr>start_attr := x\<rparr>)) u = s u" by simp
qed

lemma start_loop_reads:
  assumes "\<forall>c\<in>set cs. start_reads s c (N c) (V c)"
    and "\<forall>c\<in>set cs. (self, c) \<notin> (edges s Children)\<^sup>*"
    and "children (s self) \<noteq> []"
    and "start_cached s s2" and "\<forall>c\<in>set cs. N c \<le> m"
  shows "\<exists>s2'. start_loop m s2 self cs = Some s2' \<and> start_cached s2 s2' \<and>
           start_attr (s2' self) = Min (insert (start_attr (s2 self)) (V ` set cs)) \<and>
           (\<forall>u. u \<noteq> self \<and> (\<forall>c\<in>set cs. (u, c) \<notin> (edges s Children)\<^sup>*) \<longrightarrow> s2' u = s2 u)"
  using assms
proof (induction cs arbitrary: s2)
  case Nil
  show ?case by (simp add: start_cached_refl)
next
  case (Cons c rest)
  from Cons.prems have reads: "start_reads s c (N c) (V c)" and far: "(self, c) \<notin> (edges s Children)\<^sup>*"
    and fuel: "N c \<le> m" by simp_all
  from reads Cons.prems(4) fuel obtain s1 where
    r1: "start_getter m s2 c = Some (V c, s1)" and c1: "start_cached s2 s1"
    and f1: "\<forall>u. (u, c) \<notin> (edges s Children)\<^sup>* \<longrightarrow> s1 u = s2 u"
    unfolding start_reads_def by blast
  have cs1: "start_cached s s1"
    using Cons.prems(4) c1 by (rule start_cached_trans)
  from reads cs1 fuel obtain s1' where
    r2: "start_getter m s1 c = Some (V c, s1')" and c2: "start_cached s1 s1'"
    and f2: "\<forall>u. (u, c) \<notin> (edges s Children)\<^sup>* \<longrightarrow> s1' u = s1 u"
    unfolding start_reads_def by blast
  have cs1': "start_cached s s1'"
    using cs1 c2 by (rule start_cached_trans)
  from f1 far have self1: "s1 self = s2 self" by simp
  from f2 far have self1': "s1' self = s1 self" by simp
  define s3 where "s3 = (if V c < start_attr (s1 self)
                         then s1'(self := (s1' self)\<lparr>start_attr := V c\<rparr>) else s1)"
  have step: "start_loop m s2 self (c # rest) = start_loop m s3 self rest"
    by (simp add: r1 r2 s3_def)
  have "children (s1' self) \<noteq> []"
    using Cons.prems(3) by (simp add: start_cached_children [OF cs1'])
  then have "start_cached s1' (s1'(self := (s1' self)\<lparr>start_attr := V c\<rparr>))"
    by (rule start_cached_update)
  with c2 have "start_cached s1 (s1'(self := (s1' self)\<lparr>start_attr := V c\<rparr>))"
    by (rule start_cached_trans)
  then have c13: "start_cached s1 s3"
    by (simp add: s3_def start_cached_refl)
  with c1 have c23: "start_cached s2 s3" by (rule start_cached_trans)
  with Cons.prems(4) have cs3: "start_cached s s3" by (rule start_cached_trans)
  have acc: "start_attr (s3 self) = min (V c) (start_attr (s2 self))"
    by (simp add: s3_def self1 min_def)
  have f3: "\<forall>u. u \<noteq> self \<and> (u, c) \<notin> (edges s Children)\<^sup>* \<longrightarrow> s3 u = s2 u"
    using f1 f2 by (simp add: s3_def)
  from Cons.IH [of s3] Cons.prems cs3 obtain s2' where
    r3: "start_loop m s3 self rest = Some s2'" and c3: "start_cached s3 s2'"
    and v3: "start_attr (s2' self) = Min (insert (start_attr (s3 self)) (V ` set rest))"
    and f4: "\<forall>u. u \<noteq> self \<and> (\<forall>c\<in>set rest. (u, c) \<notin> (edges s Children)\<^sup>*) \<longrightarrow> s2' u = s3 u"
    by auto
  have "start_attr (s2' self) = Min (insert (start_attr (s2 self)) (V ` set (c # rest)))"
    by (simp add: v3 acc Min_insert_min)
  moreover from c23 c3 have "start_cached s2 s2'" by (rule start_cached_trans)
  moreover have "\<forall>u. u \<noteq> self \<and> (\<forall>c\<in>set (c # rest). (u, c) \<notin> (edges s Children)\<^sup>*) \<longrightarrow> s2' u = s2 u"
    using f3 f4 by simp
  ultimately show ?case
    using step r3 by simp
qed


lemma start_reads_leaf:
  assumes "children (s t) = []"
  shows "start_reads s t (Suc 0) (start_attr (s t))"
  unfolding start_reads_def
proof (intro allI impI)
  fix s2 m assume a: "start_cached s s2 \<and> Suc 0 \<le> m"
  then obtain m' where m: "m = Suc m'" by (cases m) auto
  from a assms have eq: "s2 t = s t" by (simp add: start_cached_leaf)
  show "\<exists>s2'. start_getter m s2 t = Some (start_attr (s t), s2') \<and> start_cached s2 s2' \<and>
               (\<forall>u. (u, t) \<notin> (edges s Children)\<^sup>* \<longrightarrow> s2' u = s2 u)"
    by (simp add: m eq assms is_container_def start_cached_refl)
qed

lemma start_reads_container:
  assumes "wf (edges s Children)" and "children (s t) \<noteq> []"
    and "\<forall>c\<in>set (children (s t)). start_reads s c (N c) (V c) \<and> V c \<le> datetime_max"
  shows "start_reads s t (Suc (Max (N ` set (children (s t))))) (Min (V ` set (children (s t))))"
  unfolding start_reads_def
proof (intro allI impI)
  fix s2 m assume a: "start_cached s s2 \<and> Suc (Max (N ` set (children (s t)))) \<le> m"
  then obtain m' where m: "m = Suc m'" and m': "Max (N ` set (children (s t))) \<le> m'"
    by (cases m) auto
  let ?cs = "children (s t)"
  from a have ch: "children (s2 t) = ?cs" by (simp add: start_cached_children)
  define s3 where "s3 = s2(t := (s2 t)\<lparr>start_attr := datetime_max\<rparr>)"
  have "start_cached s2 s3"
    unfolding s3_def by (rule start_cached_update) (simp add: ch assms(2))
  with a have cs3: "start_cached s s3" by (blast intro: start_cached_trans)
  have far: "\<forall>c\<in>set ?cs. (t, c) \<notin> (edges s Children)\<^sup>*"
  proof
    fix c assume "c \<in> set ?cs"
    then have "(c, t) \<in> edges s Children" by (simp add: edges_def)
    with assms(1) show "(t, c) \<notin> (edges s Children)\<^sup>*" by (rule wf_no_back_edge)
  qed
  have fuel: "\<forall>c\<in>set ?cs. N c \<le> m'"
    using m' by (auto simp: Max_ge_iff assms(2))
  from assms(3) have reads: "\<forall>c\<in>set ?cs. start_reads s c (N c) (V c)" by simp
  from start_loop_reads [OF reads far assms(2) cs3 fuel] obtain s2' where
    r: "start_loop m' s3 t ?cs = Some s2'" and c: "start_cached s3 s2'"
    and v: "start_attr (s2' t) = Min (insert (start_attr (s3 t)) (V ` set ?cs))"
    and f: "\<forall>u. u \<noteq> t \<and> (\<forall>c\<in>set ?cs. (u, c) \<notin> (edges s Children)\<^sup>*) \<longrightarrow> s2' u = s3 u"
    by blast
  from assms(2) obtain c0 where "c0 \<in> set ?cs" by (cases ?cs) auto
  with assms(3) have "Min (V ` set ?cs) \<le> datetime_max"
    by (simp add: Min_image_le)
  moreover have "Min (insert datetime_max (V ` set ?cs)) = min datetime_max (Min (V ` set ?cs))"
    using assms(2) by simp
  ultimately have v': "start_attr (s2' t) = Min (V ` set ?cs)"
    by (simp add: v s3_def min.absorb2)
  have frame: "\<forall>u. (u, t) \<notin> (edges s Children)\<^sup>* \<longrightarrow> s2' u = s2 u"
  proof (intro allI impI)
    fix u assume u: "(u, t) \<notin> (edges s Children)\<^sup>*"
    then have ut: "u \<noteq> t" by auto
    have "\<forall>c\<in>set ?cs. (u, c) \<notin> (edges s Children)\<^sup>*"
    proof
      fix c assume "c \<in> set ?cs"
      then have "(c, t) \<in> edges s Children" by (simp add: edges_def)
      with u show "(u, c) \<notin> (edges s Children)\<^sup>*"
        by (blast intro: rtrancl_into_rtrancl)
    qed
    with f ut have "s2' u = s3 u" by simp
    with ut show "s2' u = s2 u" by (simp add: s3_def)
  qed
  from \<open>start_cached s2 s3\<close> c have "start_cached s2 s2'" by (rule start_cached_trans)
  with frame show "\<exists>s2'. start_getter m s2 t = Some (Min (V ` set ?cs), s2') \<and> start_cached s2 s2' \<and>
               (\<forall>u. (u, t) \<notin> (edges s Children)\<^sup>* \<longrightarrow> s2' u = s2 u)"
    using r v' by (simp add: m is_container_def ch assms(2) s3_def [symmetric])
qed

lemma start_reads_node:
  assumes "wf (edges s Children)" and "\<forall>u. start_attr (s u) \<le> datetime_max"
  shows "\<exists>n v. start_reads s t n v \<and> v \<le> datetime_max \<and>
           (children (s t) \<noteq> [] \<longrightarrow>
              (\<exists>N V. (\<forall>c\<in>set (children (s t)). start_reads s c (N c) (V c)) \<and>
                     v = Min (V ` set (children (s t)))))"
  using assms(1)
proof (induction t rule: wf_induct_rule)
  case (less t)
  show ?case
  proof (cases "children (s t) = []")
    case True
    with start_reads_leaf [of s t, OF True] assms(2) show ?thesis by blast
  next
    case False
    have "\<forall>c\<in>set (children (s t)). \<exists>n v. start_reads s c n v \<and> v \<le> datetime_max"
    proof
      fix c assume "c \<in> set (children (s t))"
      then have "(c, t) \<in> edges s Children" by (simp add: edges_def)
      from less [OF this] show "\<exists>n v. start_reads s c n v \<and> v \<le> datetime_max" by blast
    qed
    then obtain N where "\<forall>c\<in>set (children (s t)). \<exists>v. start_reads s c (N c) v \<and> v \<le> datetime_max"
      by metis
    then obtain V where
      NV: "\<forall>c\<in>set (children (s t)). start_reads s c (N c) (V c) \<and> V c \<le> datetime_max"
      by metis
    from start_reads_container [OF assms(1) False NV]
    have "start_reads s t (Suc (Max (N ` set (children (s t))))) (Min (V ` set (children (s t))))" .
    moreover from False obtain c0 where "c0 \<in> set (children (s t))"
      by (cases "children (s t)") auto
    with NV have "Min (V ` set (children (s t))) \<le> datetime_max"
      by (simp add: Min_image_le)
    ultimately show ?thesis
      using NV False by blast
  qed
qed

lemma start_getter_container:
  assumes "wf (edges s Children)" and "\<forall>u. start_attr (s u) \<le> datetime_max"
    and "children (s t) \<noteq> []"
  shows "\<exists>n v vs. (\<forall>m\<ge>n. \<exists>s'. start_getter m s t = Some (v, s')) \<and>
           list_all2 (\<lambda>c vc. \<exists>k. \<forall>m\<ge>k. \<exists>s'. start_getter m s c = Some (vc, s'))
             (children (s t)) vs \<and>
           v = Min (set vs)"
proof -
  from start_reads_node [OF assms(1,2), of t] assms(3) obtain n v N V where
    t: "start_reads s t n v" and cs: "\<forall>c\<in>set (children (s t)). start_reads s c (N c) (V c)"
    and v: "v = Min (V ` set (children (s t)))"
    by blast
  have run: "\<exists>k. \<forall>m\<ge>k. \<exists>s'. start_getter m s u = Some (w, s')" if "start_reads s u k w" for u k w
    using that start_cached_refl [of s] unfolding start_reads_def by blast
  have "list_all2 (\<lambda>c vc. \<exists>k. \<forall>m\<ge>k. \<exists>s'. start_getter m s c = Some (vc, s'))
             (children (s t)) (map V (children (s t)))"
    using cs run by (simp add: list_all2_map2 list_all2_same) blast
  moreover from run [OF t] obtain k where "\<forall>m\<ge>k. \<exists>s'. start_getter m s t = Some (v, s')" ..
  ultimately show ?thesis
    using v by (intro exI [of _ k] exI [of _ v] exI [of _ "map V (children (s t))"]) simp
qed

subsection \<open>Reading the end\<close>

lemma end_cached_refl: "end_cached s s"
  unfolding end_cached_def
proof (intro allI conjI impI)
  fix u show "\<exists>x. s u = (s u)\<lparr>end_attr := x\<rparr>"
    by (rule exI [of _ "end_attr (s u)"]) simp
qed simp

lemma end_cached_children:
  assumes "end_cached s s'"
  shows "children (s' u) = children (s u)"
proof -
  from assms obtain x where "s' u = (s u)\<lparr>end_attr := x\<rparr>"
    unfolding end_cached_def by blast
  then show ?thesis by simp
qed

lemma end_cached_leaf:
  assumes "end_cached s s'" and "children (s u) = []"
  shows "s' u = s u"
  using assms unfolding end_cached_def by blast

lemma end_cached_trans:
  assumes "end_cached s s1" and "end_cached s1 s2"
  shows "end_cached s s2"
  unfolding end_cached_def
proof (intro allI conjI impI)
  fix u
  from assms(1) obtain x where x: "s1 u = (s u)\<lparr>end_attr := x\<rparr>"
    unfolding end_cached_def by blast
  from assms(2) obtain y where y: "s2 u = (s1 u)\<lparr>end_attr := y\<rparr>"
    unfolding end_cached_def by blast
  from x y have "s2 u = (s u)\<lparr>end_attr := y\<rparr>" by simp
  then show "\<exists>x. s2 u = (s u)\<lparr>end_attr := x\<rparr>" ..
next
  fix u assume leaf: "children (s u) = []"
  with assms(1) have 1: "s1 u = s u" by (rule end_cached_leaf)
  with leaf assms(2) show "s2 u = s u" by (simp add: end_cached_leaf)
qed

lemma end_cached_update:
  assumes "children (s t) \<noteq> []"
  shows "end_cached s (s(t := (s t)\<lparr>end_attr := x\<rparr>))"
  unfolding end_cached_def
proof (intro allI conjI impI)
  fix u
  show "\<exists>y. (s(t := (s t)\<lparr>end_attr := x\<rparr>)) u = (s u)\<lparr>end_attr := y\<rparr>"
  proof (cases "u = t")
    case True
    then show ?thesis by auto
  next
    case False
    then have "(s(t := (s t)\<lparr>end_attr := x\<rparr>)) u = (s u)\<lparr>end_attr := end_attr (s u)\<rparr>"
      by simp
    then show ?thesis ..
  qed
next
  fix u assume "children (s u) = []"
  with assms have "u \<noteq> t" by auto
  then show "(s(t := (s t)\<lparr>end_attr := x\<rparr>)) u = s u" by simp
qed

lemma end_loop_reads:
  assumes "\<forall>c\<in>set cs. end_reads s c (N c) (V c)"
    and "\<forall>c\<in>set cs. (self, c) \<notin> (edges s Children)\<^sup>*"
    and "children (s self) \<noteq> []"
    and "end_cached s s2" and "\<forall>c\<in>set cs. N c \<le> m"
  shows "\<exists>s2'. end_loop m s2 self cs = Some s2' \<and> end_cached s2 s2' \<and>
           end_attr (s2' self) = Max (insert (end_attr (s2 self)) (V ` set cs)) \<and>
           (\<forall>u. u \<noteq> self \<and> (\<forall>c\<in>set cs. (u, c) \<notin> (edges s Children)\<^sup>*) \<longrightarrow> s2' u = s2 u)"
  using assms
proof (induction cs arbitrary: s2)
  case Nil
  show ?case by (simp add: end_cached_refl)
next
  case (Cons c rest)
  from Cons.prems have reads: "end_reads s c (N c) (V c)" and far: "(self, c) \<notin> (edges s Children)\<^sup>*"
    and fuel: "N c \<le> m" by simp_all
  from reads Cons.prems(4) fuel obtain s1 where
    r1: "end_getter m s2 c = Some (V c, s1)" and c1: "end_cached s2 s1"
    and f1: "\<forall>u. (u, c) \<notin> (edges s Children)\<^sup>* \<longrightarrow> s1 u = s2 u"
    unfolding end_reads_def by blast
  have cs1: "end_cached s s1"
    using Cons.prems(4) c1 by (rule end_cached_trans)
  from reads cs1 fuel obtain s1' where
    r2: "end_getter m s1 c = Some (V c, s1')" and c2: "end_cached s1 s1'"
    and f2: "\<forall>u. (u, c) \<notin> (edges s Children)\<^sup>* \<longrightarrow> s1' u = s1 u"
    unfolding end_reads_def by blast
  have cs1': "end_cached s s1'"
    using cs1 c2 by (rule end_cached_trans)
  from f1 far have self1: "s1 self = s2 self" by simp
  from f2 far have self1': "s1' self = s1 self" by simp
  define s3 where "s3 = (if V c > end_attr (s1 self)
                         then s1'(self := (s1' self)\<lparr>end_attr := V c\<rparr>) else s1)"
  have step: "end_loop m s2 self (c # rest) = end_loop m s3 self rest"
    by (simp add: r1 r2 s3_def)
  have "children (s1' self) \<noteq> []"
    using Cons.prems(3) by (simp add: end_cached_children [OF cs1'])
  then have "end_cached s1' (s1'(self := (s1' self)\<lparr>end_attr := V c\<rparr>))"
    by (rule end_cached_update)
  with c2 have "end_cached s1 (s1'(self := (s1' self)\<lparr>end_attr := V c\<rparr>))"
    by (rule end_cached_trans)
  then have c13: "end_cached s1 s3"
    by (simp add: s3_def end_cached_refl)
  with c1 have c23: "end_cached s2 s3" by (rule end_cached_trans)
  with Cons.prems(4) have cs3: "end_cached s s3" by (rule end_cached_trans)
  have acc: "end_attr (s3 self) = max (V c) (end_attr (s2 self))"
    by (simp add: s3_def self1 max_def)
  have f3: "\<forall>u. u \<noteq> self \<and> (u, c) \<notin> (edges s Children)\<^sup>* \<longrightarrow> s3 u = s2 u"
    using f1 f2 by (simp add: s3_def)
  from Cons.IH [of s3] Cons.prems cs3 obtain s2' where
    r3: "end_loop m s3 self rest = Some s2'" and c3: "end_cached s3 s2'"
    and v3: "end_attr (s2' self) = Max (insert (end_attr (s3 self)) (V ` set rest))"
    and f4: "\<forall>u. u \<noteq> self \<and> (\<forall>c\<in>set rest. (u, c) \<notin> (edges s Children)\<^sup>*) \<longrightarrow> s2' u = s3 u"
    by auto
  have "end_attr (s2' self) = Max (insert (end_attr (s2 self)) (V ` set (c # rest)))"
    by (simp add: v3 acc Max_insert_max)
  moreover from c23 c3 have "end_cached s2 s2'" by (rule end_cached_trans)
  moreover have "\<forall>u. u \<noteq> self \<and> (\<forall>c\<in>set (c # rest). (u, c) \<notin> (edges s Children)\<^sup>*) \<longrightarrow> s2' u = s2 u"
    using f3 f4 by simp
  ultimately show ?case
    using step r3 by simp
qed


lemma end_reads_leaf:
  assumes "children (s t) = []"
  shows "end_reads s t (Suc 0) (end_attr (s t))"
  unfolding end_reads_def
proof (intro allI impI)
  fix s2 m assume a: "end_cached s s2 \<and> Suc 0 \<le> m"
  then obtain m' where m: "m = Suc m'" by (cases m) auto
  from a assms have eq: "s2 t = s t" by (simp add: end_cached_leaf)
  show "\<exists>s2'. end_getter m s2 t = Some (end_attr (s t), s2') \<and> end_cached s2 s2' \<and>
               (\<forall>u. (u, t) \<notin> (edges s Children)\<^sup>* \<longrightarrow> s2' u = s2 u)"
    by (simp add: m eq assms is_container_def end_cached_refl)
qed

lemma end_reads_container:
  assumes "wf (edges s Children)" and "children (s t) \<noteq> []"
    and "\<forall>c\<in>set (children (s t)). end_reads s c (N c) (V c) \<and> datetime_min \<le> V c"
  shows "end_reads s t (Suc (Max (N ` set (children (s t))))) (Max (V ` set (children (s t))))"
  unfolding end_reads_def
proof (intro allI impI)
  fix s2 m assume a: "end_cached s s2 \<and> Suc (Max (N ` set (children (s t)))) \<le> m"
  then obtain m' where m: "m = Suc m'" and m': "Max (N ` set (children (s t))) \<le> m'"
    by (cases m) auto
  let ?cs = "children (s t)"
  from a have ch: "children (s2 t) = ?cs" by (simp add: end_cached_children)
  define s3 where "s3 = s2(t := (s2 t)\<lparr>end_attr := datetime_min\<rparr>)"
  have "end_cached s2 s3"
    unfolding s3_def by (rule end_cached_update) (simp add: ch assms(2))
  with a have cs3: "end_cached s s3" by (blast intro: end_cached_trans)
  have far: "\<forall>c\<in>set ?cs. (t, c) \<notin> (edges s Children)\<^sup>*"
  proof
    fix c assume "c \<in> set ?cs"
    then have "(c, t) \<in> edges s Children" by (simp add: edges_def)
    with assms(1) show "(t, c) \<notin> (edges s Children)\<^sup>*" by (rule wf_no_back_edge)
  qed
  have fuel: "\<forall>c\<in>set ?cs. N c \<le> m'"
    using m' by (auto simp: Max_ge_iff assms(2))
  from assms(3) have reads: "\<forall>c\<in>set ?cs. end_reads s c (N c) (V c)" by simp
  from end_loop_reads [OF reads far assms(2) cs3 fuel] obtain s2' where
    r: "end_loop m' s3 t ?cs = Some s2'" and c: "end_cached s3 s2'"
    and v: "end_attr (s2' t) = Max (insert (end_attr (s3 t)) (V ` set ?cs))"
    and f: "\<forall>u. u \<noteq> t \<and> (\<forall>c\<in>set ?cs. (u, c) \<notin> (edges s Children)\<^sup>*) \<longrightarrow> s2' u = s3 u"
    by blast
  from assms(2) obtain c0 where "c0 \<in> set ?cs" by (cases ?cs) auto
  with assms(3) have "datetime_min \<le> Max (V ` set ?cs)"
    by (simp add: Max_image_ge)
  moreover have "Max (insert datetime_min (V ` set ?cs)) = max datetime_min (Max (V ` set ?cs))"
    using assms(2) by simp
  ultimately have v': "end_attr (s2' t) = Max (V ` set ?cs)"
    by (simp add: v s3_def max.absorb2)
  have frame: "\<forall>u. (u, t) \<notin> (edges s Children)\<^sup>* \<longrightarrow> s2' u = s2 u"
  proof (intro allI impI)
    fix u assume u: "(u, t) \<notin> (edges s Children)\<^sup>*"
    then have ut: "u \<noteq> t" by auto
    have "\<forall>c\<in>set ?cs. (u, c) \<notin> (edges s Children)\<^sup>*"
    proof
      fix c assume "c \<in> set ?cs"
      then have "(c, t) \<in> edges s Children" by (simp add: edges_def)
      with u show "(u, c) \<notin> (edges s Children)\<^sup>*"
        by (blast intro: rtrancl_into_rtrancl)
    qed
    with f ut have "s2' u = s3 u" by simp
    with ut show "s2' u = s2 u" by (simp add: s3_def)
  qed
  from \<open>end_cached s2 s3\<close> c have "end_cached s2 s2'" by (rule end_cached_trans)
  with frame show "\<exists>s2'. end_getter m s2 t = Some (Max (V ` set ?cs), s2') \<and> end_cached s2 s2' \<and>
               (\<forall>u. (u, t) \<notin> (edges s Children)\<^sup>* \<longrightarrow> s2' u = s2 u)"
    using r v' by (simp add: m is_container_def ch assms(2) s3_def [symmetric])
qed

lemma end_reads_node:
  assumes "wf (edges s Children)" and "\<forall>u. datetime_min \<le> end_attr (s u)"
  shows "\<exists>n v. end_reads s t n v \<and> datetime_min \<le> v \<and>
           (children (s t) \<noteq> [] \<longrightarrow>
              (\<exists>N V. (\<forall>c\<in>set (children (s t)). end_reads s c (N c) (V c)) \<and>
                     v = Max (V ` set (children (s t)))))"
  using assms(1)
proof (induction t rule: wf_induct_rule)
  case (less t)
  show ?case
  proof (cases "children (s t) = []")
    case True
    with end_reads_leaf [of s t, OF True] assms(2) show ?thesis by blast
  next
    case False
    have "\<forall>c\<in>set (children (s t)). \<exists>n v. end_reads s c n v \<and> datetime_min \<le> v"
    proof
      fix c assume "c \<in> set (children (s t))"
      then have "(c, t) \<in> edges s Children" by (simp add: edges_def)
      from less [OF this] show "\<exists>n v. end_reads s c n v \<and> datetime_min \<le> v" by blast
    qed
    then obtain N where "\<forall>c\<in>set (children (s t)). \<exists>v. end_reads s c (N c) v \<and> datetime_min \<le> v"
      by metis
    then obtain V where
      NV: "\<forall>c\<in>set (children (s t)). end_reads s c (N c) (V c) \<and> datetime_min \<le> V c"
      by metis
    from end_reads_container [OF assms(1) False NV]
    have "end_reads s t (Suc (Max (N ` set (children (s t))))) (Max (V ` set (children (s t))))" .
    moreover from False obtain c0 where "c0 \<in> set (children (s t))"
      by (cases "children (s t)") auto
    with NV have "datetime_min \<le> Max (V ` set (children (s t)))"
      by (simp add: Max_image_ge)
    ultimately show ?thesis
      using NV False by blast
  qed
qed

lemma end_getter_container:
  assumes "wf (edges s Children)" and "\<forall>u. datetime_min \<le> end_attr (s u)"
    and "children (s t) \<noteq> []"
  shows "\<exists>n v vs. (\<forall>m\<ge>n. \<exists>s'. end_getter m s t = Some (v, s')) \<and>
           list_all2 (\<lambda>c vc. \<exists>k. \<forall>m\<ge>k. \<exists>s'. end_getter m s c = Some (vc, s'))
             (children (s t)) vs \<and>
           v = Max (set vs)"
proof -
  from end_reads_node [OF assms(1,2), of t] assms(3) obtain n v N V where
    t: "end_reads s t n v" and cs: "\<forall>c\<in>set (children (s t)). end_reads s c (N c) (V c)"
    and v: "v = Max (V ` set (children (s t)))"
    by blast
  have run: "\<exists>k. \<forall>m\<ge>k. \<exists>s'. end_getter m s u = Some (w, s')" if "end_reads s u k w" for u k w
    using that end_cached_refl [of s] unfolding end_reads_def by blast
  have "list_all2 (\<lambda>c vc. \<exists>k. \<forall>m\<ge>k. \<exists>s'. end_getter m s c = Some (vc, s'))
             (children (s t)) (map V (children (s t)))"
    using cs run by (simp add: list_all2_map2 list_all2_same) blast
  moreover from run [OF t] obtain k where "\<forall>m\<ge>k. \<exists>s'. end_getter m s t = Some (v, s')" ..
  ultimately show ?thesis
    using v by (intro exI [of _ k] exI [of _ v] exI [of _ "map V (children (s t))"]) simp
qed

subsection \<open>Containers\<close>

lemma set_parent_attaches:
  assumes "set_parent s c (Instance t) = Some (Inr (), s')" and "parent (s c) \<noteq> Some t"
  shows "resources (s' t) = [] \<and> c \<in> set (children (s' t)) \<and> parent (s' c) = Some t"
proof (cases "check_circular_dependency s c t Children")
  case None
  with assms(1) show ?thesis
    by (simp add: set_parent_def validate_parent_def)
next
  case (Some r)
  show ?thesis
  proof (cases r)
    case (Inl e)
    with Some assms(1) show ?thesis
      by (simp add: set_parent_def validate_parent_def)
  next
    case (Inr u)
    with Some assms show ?thesis
      by (auto simp: set_parent_def validate_parent_def attach_child_def validate_children_def
          Let_def)
  qed
qed

text \<open>
  On a task that is its own child, reading the start or the end reads the same task
  again, whatever the bound on the depth.
\<close>

lemma start_getter_own_child:
  "children (s t) = [t] \<Longrightarrow> start_getter n s t = None"
proof (induction n arbitrary: s)
  case 0
  show ?case by simp
next
  case (Suc n)
  let ?s3 = "s(t := (s t)\<lparr>start_attr := datetime_max\<rparr>)"
  from Suc.prems have "children (?s3 t) = [t]" by simp
  then have "start_getter n ?s3 t = None" by (rule Suc.IH)
  with Suc.prems show ?case by (simp add: is_container_def)
qed

lemma end_getter_own_child:
  "children (s t) = [t] \<Longrightarrow> end_getter n s t = None"
proof (induction n arbitrary: s)
  case 0
  show ?case by simp
next
  case (Suc n)
  let ?s3 = "s(t := (s t)\<lparr>end_attr := datetime_min\<rparr>)"
  from Suc.prems have "children (?s3 t) = [t]" by simp
  then have "end_getter n ?s3 t = None" by (rule Suc.IH)
  with Suc.prems show ?case by (simp add: is_container_def)
qed

lemma set_parent_returns:
  assumes "wf (edges s Children)" and "(t, c) \<notin> (edges s Children)\<^sup>+"
  shows "\<exists>s'. set_parent s c (Instance t) = Some (Inr (), s')"
  using assms(2)
  by (simp add: set_parent_def validate_parent_def
      check_circular_dependency_wf [OF assms(1)] outcome_def)

lemma wf_tree_store: "wf (edges tree_store Children)"
proof (rule wf_subset [OF wf_measure [of "\<lambda>t. 4 - t"]])
  show "edges tree_store Children \<subseteq> measure (\<lambda>t. 4 - t)"
    by (auto simp: edges_def tree_store_def empty_store_def new_task_def split: if_splits)
qed

lemma tree_store_dates:
  "\<forall>u. datetime_min \<le> start_attr (tree_store u) \<and> start_attr (tree_store u) \<le> datetime_max \<and>
       datetime_min \<le> end_attr (tree_store u) \<and> end_attr (tree_store u) \<le> datetime_max"
  by (simp add: tree_store_def empty_store_def new_task_def datetime_min_def datetime_max_def)

lemma tree_store_start: "map_option fst (start_getter 3 tree_store 0) = Some 20"
  by (simp add: eval_nat_numeral is_container_def tree_store_def empty_store_def new_task_def
      datetime_max_def)

lemma tree_store_end: "map_option fst (end_getter 3 tree_store 0) = Some 90"
  by (simp add: eval_nat_numeral is_container_def tree_store_def empty_store_def new_task_def
      datetime_min_def)

lemma wf_resourced_leaf_store: "wf (edges resourced_leaf_store Children)"
proof -
  have "edges resourced_leaf_store Children = {}"
    by (auto simp: edges_def resourced_leaf_store_def empty_store_def new_task_def)
  then show ?thesis by simp
qed

text \<open>
  Claim C3, as the code has it. When the parent tree has no cycle, every stored date is
  a datetime and \<open>t\<close> is a container, then with a large enough bound on the depth
  reading the start of \<open>t\<close> returns the minimum of the values that reading the start of
  each child returns, and reading the end returns the maximum of the ends of the
  children. A write to the start or to the end of a container changes nothing. The
  resources of any task, with or without children, are emptied when a child is attached
  to it: \<^verbatim>\<open>_validate_children\<close> empties them, an assignment of \<open>t\<close> as the parent of a
  task \<open>c\<close> is accepted when the tree has no cycle and \<open>t\<close> is not below \<open>c\<close>, and every
  accepted assignment of a new parent leaves the parent with the child and without
  resources. Nothing is said of the resources of a container afterwards, nor of reads in
  a tree that has a cycle.
\<close>

theorem container_dates_derived:
  "(wf (edges s Children) \<and>
    (\<forall>u. datetime_min \<le> start_attr (s u) \<and> start_attr (s u) \<le> datetime_max \<and>
         datetime_min \<le> end_attr (s u) \<and> end_attr (s u) \<le> datetime_max) \<and>
    children (s t) \<noteq> [] \<longrightarrow>
      (\<exists>n v vs. (\<forall>m\<ge>n. \<exists>s'. start_getter m s t = Some (v, s')) \<and>
         list_all2 (\<lambda>c vc. \<exists>k. \<forall>m\<ge>k. \<exists>s'. start_getter m s c = Some (vc, s'))
           (children (s t)) vs \<and>
         v = Min (set vs)) \<and>
      (\<exists>n v vs. (\<forall>m\<ge>n. \<exists>s'. end_getter m s t = Some (v, s')) \<and>
         list_all2 (\<lambda>c vc. \<exists>k. \<forall>m\<ge>k. \<exists>s'. end_getter m s c = Some (vc, s'))
           (children (s t)) vs \<and>
         v = Max (set vs))) \<and>
   (children (s t) \<noteq> [] \<longrightarrow>
      start_setter vd (s t) start_in = s t \<and> end_setter vd (s t) end_in = s t) \<and>
   validate_children (s t) c = ((s t)\<lparr>resources := []\<rparr>, c) \<and>
   (wf (edges s Children) \<and> (t, c) \<notin> (edges s Children)\<^sup>+ \<longrightarrow>
      (\<exists>s'. set_parent s c (Instance t) = Some (Inr (), s'))) \<and>
   (\<forall>s'. set_parent s c (Instance t) = Some (Inr (), s') \<and> parent (s c) \<noteq> Some t \<longrightarrow>
         resources (s' t) = [] \<and> c \<in> set (children (s' t)) \<and> parent (s' c) = Some t)"
proof (intro conjI impI)
  assume a: "wf (edges s Children) \<and>
    (\<forall>u. datetime_min \<le> start_attr (s u) \<and> start_attr (s u) \<le> datetime_max \<and>
         datetime_min \<le> end_attr (s u) \<and> end_attr (s u) \<le> datetime_max) \<and>
    children (s t) \<noteq> []"
  then have wf: "wf (edges s Children)" and ne: "children (s t) \<noteq> []"
    and lo: "\<forall>u. start_attr (s u) \<le> datetime_max"
    and hi: "\<forall>u. datetime_min \<le> end_attr (s u)"
    by simp_all
  show "\<exists>n v vs. (\<forall>m\<ge>n. \<exists>s'. start_getter m s t = Some (v, s')) \<and>
            list_all2 (\<lambda>c vc. \<exists>k. \<forall>m\<ge>k. \<exists>s'. start_getter m s c = Some (vc, s'))
              (children (s t)) vs \<and>
            v = Min (set vs)"
    using wf lo ne by (rule start_getter_container)
  show "\<exists>n v vs. (\<forall>m\<ge>n. \<exists>s'. end_getter m s t = Some (v, s')) \<and>
            list_all2 (\<lambda>c vc. \<exists>k. \<forall>m\<ge>k. \<exists>s'. end_getter m s c = Some (vc, s'))
              (children (s t)) vs \<and>
            v = Max (set vs)"
    using wf hi ne by (rule end_getter_container)
next
  assume "children (s t) \<noteq> []"
  then show "start_setter vd (s t) start_in = s t"
    by (simp add: start_setter_def is_leaf_def)
next
  assume "children (s t) \<noteq> []"
  then show "end_setter vd (s t) end_in = s t"
    by (simp add: end_setter_def is_leaf_def)
next
  show "validate_children (s t) c = ((s t)\<lparr>resources := []\<rparr>, c)"
    by (simp add: validate_children_def)
next
  assume "wf (edges s Children) \<and> (t, c) \<notin> (edges s Children)\<^sup>+"
  then show "\<exists>s'. set_parent s c (Instance t) = Some (Inr (), s')"
    by (simp add: set_parent_returns)
next
  show "\<forall>s'. set_parent s c (Instance t) = Some (Inr (), s') \<and> parent (s c) \<noteq> Some t \<longrightarrow>
         resources (s' t) = [] \<and> c \<in> set (children (s' t)) \<and> parent (s' c) = Some t"
    using set_parent_attaches [of s c t] by blast
qed

theorem container_dates_derived_witness:
  "wf (edges tree_store Children) \<and> children (tree_store 0) = [1, 2] \<and>
   map_option fst (start_getter 3 tree_store 0) = Some 20 \<and>
   map_option fst (end_getter 3 tree_store 0) = Some 90 \<and>
   (\<exists>n v vs. (\<forall>m\<ge>n. \<exists>s'. start_getter m tree_store 0 = Some (v, s')) \<and>
      list_all2 (\<lambda>c vc. \<exists>k. \<forall>m\<ge>k. \<exists>s'. start_getter m tree_store c = Some (vc, s')) [1, 2] vs \<and>
      v = Min (set vs)) \<and>
   start_setter simple_dates (tree_store 0) (Instance 7) = tree_store 0 \<and>
   resources (resourced_leaf_store 0) = [5] \<and> children (resourced_leaf_store 0) = [] \<and>
   (\<exists>s'. set_parent resourced_leaf_store 1 (Instance 0) = Some (Inr (), s') \<and>
         resources (s' 0) = [] \<and> children (s' 0) = [1])"
proof -
  have ch: "children (tree_store 0) = [1, 2]"
    by (simp add: tree_store_def new_task_def)
  then have ne: "children (tree_store 0) \<noteq> []" by simp
  from container_dates_derived [of tree_store 0 simple_dates "Instance 7"]
    wf_tree_store tree_store_dates ne
  have tree: "(\<exists>n v vs. (\<forall>m\<ge>n. \<exists>s'. start_getter m tree_store 0 = Some (v, s')) \<and>
      list_all2 (\<lambda>c vc. \<exists>k. \<forall>m\<ge>k. \<exists>s'. start_getter m tree_store c = Some (vc, s')) [1, 2] vs \<and>
      v = Min (set vs)) \<and>
   start_setter simple_dates (tree_store 0) (Instance 7) = tree_store 0"
    by (simp add: ch)
  have leaf: "resources (resourced_leaf_store 0) = [5]" "children (resourced_leaf_store 0) = []"
    "parent (resourced_leaf_store 1) \<noteq> Some 0"
    by (simp_all add: resourced_leaf_store_def empty_store_def new_task_def)
  have "edges resourced_leaf_store Children = {}"
    by (auto simp: edges_def resourced_leaf_store_def empty_store_def new_task_def)
  then have far: "(0, 1) \<notin> (edges resourced_leaf_store Children)\<^sup>+" by simp
  from container_dates_derived [of resourced_leaf_store 0 simple_dates PyNone PyNone 1]
    wf_resourced_leaf_store far leaf(3)
  obtain s' where s': "set_parent resourced_leaf_store 1 (Instance 0) = Some (Inr (), s')"
    and r: "resources (s' 0) = []"
    by blast
  have "set_parent resourced_leaf_store 1 (Instance 0)
          = Some (Inr (), resourced_leaf_store
                (1 := new_task\<lparr>parent := Some 0\<rparr>, 0 := new_task\<lparr>children := [1]\<rparr>))"
    by (simp add: set_parent_def validate_parent_def check_circular_dependency_def
      check_circular_loop_Nil detach_child_def attach_child_def validate_children_def Let_def
      resourced_leaf_store_def empty_store_def new_task_def)
  with s' have "children (s' 0) = [1]" by auto
  with s' r tree leaf wf_tree_store tree_store_start tree_store_end ch show ?thesis
    by blast
qed

text \<open>
  The claim as stated fails in two places. The resources of a container need not be
  empty: task 1 takes task 0 as its parent, then user 5 is appended to the resources of
  task 0, which \<^verbatim>\<open>_validate_resources\<close> accepts without looking at the children. And
  reading the start or the end of a container need not return: the assignment of task 0
  as its own parent is accepted, and then no bound on the depth is enough.
\<close>

theorem container_resources_counterexample:
  "set_parent empty_store 1 (Instance 0) = Some (Inr (), container_store) \<and>
   append_resource (container_store 0) (Instance 5)
     = (Inr (), (container_store 0)\<lparr>resources := [5]\<rparr>) \<and>
   children ((container_store 0)\<lparr>resources := [5]\<rparr>) = [1] \<and>
   resources ((container_store 0)\<lparr>resources := [5]\<rparr>) = [5] \<and>
   set_parent empty_store 0 (Instance 0) = Some (Inr (), self_parent_store) \<and>
   children (self_parent_store 0) = [0] \<and>
   \<not> (\<exists>n v s'. start_getter n self_parent_store 0 = Some (v, s')) \<and>
   \<not> (\<exists>n v s'. end_getter n self_parent_store 0 = Some (v, s'))"
proof -
  have own: "children (self_parent_store 0) = [0]"
    by (simp add: self_parent_store_def)
  have "set_parent empty_store 1 (Instance 0) = Some (Inr (), container_store) \<and>
   append_resource (container_store 0) (Instance 5)
     = (Inr (), (container_store 0)\<lparr>resources := [5]\<rparr>) \<and>
   children ((container_store 0)\<lparr>resources := [5]\<rparr>) = [1] \<and>
   resources ((container_store 0)\<lparr>resources := [5]\<rparr>) = [5]"
    by (simp add: set_parent_def validate_parent_def check_circular_dependency_def
      check_circular_loop_Nil detach_child_def attach_child_def validate_children_def Let_def
      append_resource_def validate_resources_def container_store_def empty_store_def new_task_def)
  moreover have "set_parent empty_store 0 (Instance 0) = Some (Inr (), self_parent_store)"
    by (simp add: set_parent_def validate_parent_def check_circular_dependency_def
      check_circular_loop_Nil empty_store_def new_task_def detach_child_def attach_child_def
      validate_children_def Let_def self_parent_store_def)
  moreover have "\<not> (\<exists>n v s'. start_getter n self_parent_store 0 = Some (v, s'))"
    by (simp add: start_getter_own_child [of self_parent_store 0, OF own])
  moreover have "\<not> (\<exists>n v s'. end_getter n self_parent_store 0 = Some (v, s'))"
    by (simp add: end_getter_own_child [of self_parent_store 0, OF own])
  ultimately show ?thesis using own by simp
qed

end
